theory Spec2Isabelle
  imports Main "HOL-Library.Word" "HOL-Library.Signed_Division"
begin

section \<open>The pusher firmware (shrine\_pusher.ino) as state-passing functions\<close>

text \<open>
  The sketch drives two steppers through digital pins and polls four inputs. The model keeps
  the global variables of the sketch in a record, together with the level last written to each
  output pin, a clock in microseconds and a log of everything the sketch does to the outside:
  every \<open>digitalWrite\<close>, every \<open>delay\<close>/\<open>delayMicroseconds\<close> and every assignment to
  \<open>currentState\<close>. The clock advances by exactly the argument of each delay; all other
  statements take no time. Inputs are a function of the clock. Serial output is not modelled.

  Integer types are those of the AVR boards the README names (Uno/Nano): \<open>unsigned int\<close> is a
  16-bit word, \<open>unsigned long\<close> a 32-bit word. Values of type \<open>long\<close> are step counters that
  start at 0 and grow by one per step, far from the 32-bit range in every bounded loop; they are
  modelled as \<open>int\<close>, with C's truncating division \<open>sdiv\<close>.
\<close>

datatype level = LOW | HIGH

type_synonym pin = nat

datatype SystemState =
    STATE_INIT
  | STATE_HOMING
  | STATE_READY
  | STATE_EXTENDING
  | STATE_RETRACTING
  | STATE_STOPPED
  | STATE_TEST_MODE

datatype event =
    Write pin level
  | Wait nat
  | SetState SystemState

record env =
  pin_level :: "nat \<Rightarrow> pin \<Rightarrow> level"
  serial_rx :: "nat \<Rightarrow> string"

record state =
  currentState :: SystemState
  isHomed :: bool
  lastMotorActivity :: "32 word"
  motorsEnabled :: bool
  pin_out :: "pin \<Rightarrow> level"
  clock :: nat
  rx_taken :: nat
  trace :: "event list"

text \<open>
  A call either returns, or ends in the endless loop of \<open>emergencyStop\<close> (\<open>Halt\<close>, with the
  state in which that loop is entered), or is still inside one of the sketch's unbounded wait
  loops when the iteration budget given to that loop is used up (\<open>Unfinished\<close>, with the state
  reached so far).
\<close>

datatype 'a result = Return 'a state | Halt state | Unfinished state

fun state_of :: "'a result \<Rightarrow> state" where
  "state_of (Return a s) = s"
| "state_of (Halt s) = s"
| "state_of (Unfinished s) = s"

definition andThen :: "'a result \<Rightarrow> ('a \<Rightarrow> state \<Rightarrow> 'b result) \<Rightarrow> 'b result" where
  "andThen r k = (case r of Return a s \<Rightarrow> k a s | Halt s \<Rightarrow> Halt s | Unfinished s \<Rightarrow> Unfinished s)"

subsection \<open>Pins and configuration constants\<close>

definition X_STEP_PIN :: pin where "X_STEP_PIN = 2"
definition X_DIR_PIN :: pin where "X_DIR_PIN = 5"
definition X_ENABLE_PIN :: pin where "X_ENABLE_PIN = 8"
definition Y_STEP_PIN :: pin where "Y_STEP_PIN = 3"
definition Y_DIR_PIN :: pin where "Y_DIR_PIN = 6"
definition Y_ENABLE_PIN :: pin where "Y_ENABLE_PIN = 8"
definition X_LIMIT_PIN :: pin where "X_LIMIT_PIN = 9"
definition Y_LIMIT_PIN :: pin where "Y_LIMIT_PIN = 10"

text \<open>\<open>A3\<close> and \<open>A0\<close> come from the board's core header; on the Uno they are pins 17 and 14.\<close>

definition COOL_EN_PIN :: pin where "COOL_EN_PIN = 17"
definition E_STOP_PIN :: pin where "E_STOP_PIN = 14"

definition TEST_MODE :: bool where "TEST_MODE = False"
definition AUTO_HOMING :: bool where "AUTO_HOMING = True"

definition STEPS_PER_MM :: int where "STEPS_PER_MM = 80"
definition X_MAX_TRAVEL_MM :: int where "X_MAX_TRAVEL_MM = 81"
definition Y_MAX_TRAVEL_MM :: int where "Y_MAX_TRAVEL_MM = 43"

definition HOMING_SPEED_DELAY :: "16 word" where "HOMING_SPEED_DELAY = 2000"
definition NORMAL_SPEED_DELAY :: "16 word" where "NORMAL_SPEED_DELAY = 1500"
definition TEST_SPEED_DELAY :: "16 word" where "TEST_SPEED_DELAY = 1500"
definition START_SPEED_DELAY :: "16 word" where "START_SPEED_DELAY = 3000"

text \<open>
  \<open>ACCEL_STEPS\<close> is an \<open>unsigned int\<close> that the sketch only ever compares with, or divides
  into, a \<open>long\<close>; the usual arithmetic conversions turn it into the \<open>long\<close> 200 each time.
\<close>

definition ACCEL_STEPS :: int where "ACCEL_STEPS = 200"

definition MOTOR_IDLE_TIMEOUT :: "32 word" where "MOTOR_IDLE_TIMEOUT = 2000"

definition DIR_X_IN :: level where "DIR_X_IN = HIGH"
definition DIR_X_OUT :: level where "DIR_X_OUT = LOW"
definition DIR_Y_DOWN :: level where "DIR_Y_DOWN = HIGH"
definition DIR_Y_UP :: level where "DIR_Y_UP = LOW"

subsection \<open>The Arduino primitives\<close>

definition digitalWrite :: "pin \<Rightarrow> level \<Rightarrow> state \<Rightarrow> state" where
  "digitalWrite p v s = s\<lparr>pin_out := (pin_out s)(p := v), trace := trace s @ [Write p v]\<rparr>"

definition digitalRead :: "env \<Rightarrow> pin \<Rightarrow> state \<Rightarrow> level" where
  "digitalRead e p s = pin_level e (clock s) p"

definition delayMicroseconds :: "nat \<Rightarrow> state \<Rightarrow> state" where
  "delayMicroseconds us s = s\<lparr>clock := clock s + us, trace := trace s @ [Wait us]\<rparr>"

definition delay :: "nat \<Rightarrow> state \<Rightarrow> state" where
  "delay ms s = delayMicroseconds (1000 * ms) s"

definition millis :: "state \<Rightarrow> 32 word" where
  "millis s = word_of_nat (clock s div 1000)"

definition setState :: "SystemState \<Rightarrow> state \<Rightarrow> state" where
  "setState st s = s\<lparr>currentState := st, trace := trace s @ [SetState st]\<rparr>"

subsection \<open>Motor power\<close>

definition enableMotors :: "state \<Rightarrow> state" where
  "enableMotors s =
     (let s1 = digitalWrite Y_ENABLE_PIN LOW s;
          s2 = digitalWrite X_ENABLE_PIN LOW s1;
          s3 = s2\<lparr>motorsEnabled := True\<rparr>;
          s4 = s3\<lparr>lastMotorActivity := millis s3\<rparr>
      in delay 10 s4)"

definition disableMotors :: "state \<Rightarrow> state" where
  "disableMotors s =
     (let s1 = digitalWrite Y_ENABLE_PIN HIGH s;
          s2 = digitalWrite X_ENABLE_PIN HIGH s1
      in s2\<lparr>motorsEnabled := False\<rparr>)"

definition checkMotorIdle :: "state \<Rightarrow> state" where
  "checkMotorIdle s =
     (if motorsEnabled s \<and> millis s - lastMotorActivity s > MOTOR_IDLE_TIMEOUT
      then disableMotors s else s)"

subsection \<open>Emergency stop\<close>

text \<open>
  \<open>emergencyStop\<close> ends in \<open>while (true) delay(1000)\<close>: it never returns. \<open>stopped\<close> is the
  state in which that loop is entered.
\<close>

definition stopped :: "state \<Rightarrow> state" where
  "stopped s =
     (let s1 = digitalWrite Y_ENABLE_PIN HIGH s;
          s2 = digitalWrite X_ENABLE_PIN HIGH s1;
          s3 = setState STATE_STOPPED s2
      in s3\<lparr>isHomed := False\<rparr>)"

definition emergencyStop :: "state \<Rightarrow> unit result" where
  "emergencyStop s = Halt (stopped s)"

definition checkEStop :: "env \<Rightarrow> state \<Rightarrow> bool result" where
  "checkEStop e s =
     (if digitalRead e E_STOP_PIN s = LOW
      then andThen (emergencyStop s) (\<lambda>u s'. Return True s')
      else Return False s)"

subsection \<open>Step pulses and the delay of each step\<close>

text \<open>
  Every stepping loop of the sketch contains the same four statements: step pin high, 50
  microseconds, step pin low, then the delay computed for this step.
\<close>

definition stepPulse :: "pin \<Rightarrow> 16 word \<Rightarrow> state \<Rightarrow> state" where
  "stepPulse stepPin currentDelay s =
     delayMicroseconds (unat currentDelay)
       (digitalWrite stepPin LOW (delayMicroseconds 50 (digitalWrite stepPin HIGH s)))"

text \<open>
  The ramp expression \<open>START_SPEED_DELAY - ((START_SPEED_DELAY - target) * k / ACCEL_STEPS)\<close>:
  the inner difference is 16-bit unsigned, the product, the quotient and the outer difference
  are \<open>long\<close>, and the assignment to \<open>currentDelay\<close> keeps the low 16 bits.
\<close>

definition ramp :: "16 word \<Rightarrow> int \<Rightarrow> 16 word" where
  "ramp target k =
     word_of_int (uint START_SPEED_DELAY - (uint (START_SPEED_DELAY - target) * k) sdiv ACCEL_STEPS)"

definition moveAxis_delay :: "int \<Rightarrow> int \<Rightarrow> 16 word" where
  "moveAxis_delay steps i =
     (if i < ACCEL_STEPS then ramp NORMAL_SPEED_DELAY i
      else if i > steps - ACCEL_STEPS then ramp NORMAL_SPEED_DELAY (steps - i)
      else NORMAL_SPEED_DELAY)"

definition doSteps_delay :: "int \<Rightarrow> 16 word \<Rightarrow> int \<Rightarrow> 16 word" where
  "doSteps_delay numSteps targetDelay i =
     (if i < ACCEL_STEPS then ramp targetDelay i
      else if i > numSteps - ACCEL_STEPS then ramp targetDelay (numSteps - i)
      else targetDelay)"

definition moveAxisToLimit_delay :: "int \<Rightarrow> 16 word" where
  "moveAxisToLimit_delay stepCount =
     (if stepCount < ACCEL_STEPS then ramp NORMAL_SPEED_DELAY stepCount
      else NORMAL_SPEED_DELAY)"

definition homeAxis_delay :: "int \<Rightarrow> 16 word" where
  "homeAxis_delay stepCount =
     (if stepCount < ACCEL_STEPS then ramp HOMING_SPEED_DELAY stepCount
      else HOMING_SPEED_DELAY)"

subsection \<open>Fixed-count moves\<close>

lemma andThen_cong [fundef_cong]:
  "r = r' \<Longrightarrow> (\<And>a s. r' = Return a s \<Longrightarrow> k a s = k' a s) \<Longrightarrow> andThen r k = andThen r' k'"
  by (cases r') (simp_all add: andThen_def)

text \<open>
  The \<open>for\<close> loop of \<open>moveAxis\<close> from index \<open>i\<close> on, with the statement that follows it
  (\<open>lastMotorActivity = millis()\<close>); the \<open>return\<close> inside the loop skips that statement.
\<close>

function moveAxis_loop :: "env \<Rightarrow> pin \<Rightarrow> int \<Rightarrow> int \<Rightarrow> state \<Rightarrow> unit result" where
  "moveAxis_loop e stepPin steps i s =
     (if i < steps then
        andThen (checkEStop e s) (\<lambda>stop s1.
          if stop then Return () s1
          else moveAxis_loop e stepPin steps (i + 1) (stepPulse stepPin (moveAxis_delay steps i) s1))
      else Return () (s\<lparr>lastMotorActivity := millis s\<rparr>))"
  by pat_completeness auto
termination
  by (relation "measure (\<lambda>(e, stepPin, steps, i, s). nat (steps - i))") auto

declare moveAxis_loop.simps [simp del]

definition moveAxis :: "env \<Rightarrow> pin \<Rightarrow> pin \<Rightarrow> level \<Rightarrow> int \<Rightarrow> state \<Rightarrow> unit result" where
  "moveAxis e stepPin dirPin direction steps s =
     moveAxis_loop e stepPin steps 0 (delay 50 (digitalWrite dirPin direction (enableMotors s)))"

text \<open>\<open>doSteps\<close>, the stepping primitive of the test mode; its loop reads no input.\<close>

function doSteps_loop :: "pin \<Rightarrow> int \<Rightarrow> 16 word \<Rightarrow> int \<Rightarrow> state \<Rightarrow> unit result" where
  "doSteps_loop stepPin numSteps targetDelay i s =
     (if i < numSteps then
        doSteps_loop stepPin numSteps targetDelay (i + 1)
          (stepPulse stepPin (doSteps_delay numSteps targetDelay i) s)
      else Return () (s\<lparr>lastMotorActivity := millis s\<rparr>))"
  by pat_completeness auto
termination
  by (relation "measure (\<lambda>(stepPin, numSteps, targetDelay, i, s). nat (numSteps - i))") auto

declare doSteps_loop.simps [simp del]

definition doSteps :: "pin \<Rightarrow> int \<Rightarrow> 16 word \<Rightarrow> state \<Rightarrow> unit result" where
  "doSteps stepPin numSteps targetDelay s = doSteps_loop stepPin numSteps targetDelay 0 (enableMotors s)"

subsection \<open>Moves to a limit switch\<close>

text \<open>
  \<open>maxSteps\<close> is \<open>(axisName == 'Y' ? Y_MAX_TRAVEL_MM : X_MAX_TRAVEL_MM) * STEPS_PER_MM * 1.2\<close>
  converted to \<open>long\<close>. The product with 1.2 is taken here in exact arithmetic and truncated;
  for the two travels of the sketch this gives 4128 and 7776, which is also what the
  floating-point product truncates to.
\<close>

definition maxSteps :: "char \<Rightarrow> int" where
  "maxSteps axisName =
     ((if axisName = CHR ''Y'' then Y_MAX_TRAVEL_MM else X_MAX_TRAVEL_MM) * STEPS_PER_MM * 12) sdiv 10"

text \<open>
  The \<open>while\<close> loop of \<open>moveAxisToLimit\<close> from a given \<open>stepCount\<close> on, with the statements
  that follow it.
\<close>

function moveAxisToLimit_loop :: "env \<Rightarrow> pin \<Rightarrow> pin \<Rightarrow> int \<Rightarrow> int \<Rightarrow> state \<Rightarrow> bool result" where
  "moveAxisToLimit_loop e stepPin limitPin maxS stepCount s =
     (if digitalRead e limitPin s = HIGH \<and> stepCount < maxS then
        andThen (checkEStop e s) (\<lambda>stop s1.
          if stop then Return False s1
          else moveAxisToLimit_loop e stepPin limitPin maxS (stepCount + 1)
                 (stepPulse stepPin (moveAxisToLimit_delay stepCount) s1))
      else if stepCount \<ge> maxS then Return False s
      else Return True (s\<lparr>lastMotorActivity := millis s\<rparr>))"
  by pat_completeness auto
termination
  by (relation "measure (\<lambda>(e, stepPin, limitPin, maxS, stepCount, s). nat (maxS - stepCount))") auto

declare moveAxisToLimit_loop.simps [simp del]

definition moveAxisToLimit :: "env \<Rightarrow> pin \<Rightarrow> pin \<Rightarrow> pin \<Rightarrow> level \<Rightarrow> char \<Rightarrow> state \<Rightarrow> bool result" where
  "moveAxisToLimit e stepPin dirPin limitPin direction axisName s =
     moveAxisToLimit_loop e stepPin limitPin (maxSteps axisName) 0
       (delay 50 (digitalWrite dirPin direction (enableMotors s)))"

subsection \<open>Homing\<close>

text \<open>
  The \<open>while\<close> loop of \<open>homeAxis\<close> has no bound of its own: it runs as long as the limit input
  reads high. The first argument bounds the number of times the loop condition is evaluated.
\<close>

fun homeAxis_loop :: "nat \<Rightarrow> env \<Rightarrow> pin \<Rightarrow> pin \<Rightarrow> int \<Rightarrow> state \<Rightarrow> bool result" where
  "homeAxis_loop 0 e stepPin limitPin stepCount s = Unfinished s"
| "homeAxis_loop (Suc fuel) e stepPin limitPin stepCount s =
     (if digitalRead e limitPin s = HIGH then
        andThen (checkEStop e s) (\<lambda>stop s1.
          if stop then Return False s1
          else homeAxis_loop fuel e stepPin limitPin (stepCount + 1)
                 (stepPulse stepPin (homeAxis_delay stepCount) s1))
      else Return True s)"

definition homeAxis :: "nat \<Rightarrow> env \<Rightarrow> pin \<Rightarrow> pin \<Rightarrow> pin \<Rightarrow> level \<Rightarrow> char \<Rightarrow> state \<Rightarrow> bool result" where
  "homeAxis fuel e stepPin dirPin limitPin direction axisName s =
     (if digitalRead e limitPin s = LOW then Return True s
      else homeAxis_loop fuel e stepPin limitPin 0 (delay 50 (digitalWrite dirPin direction s)))"

subsection \<open>Homing, extending and retracting\<close>

text \<open>\<open>emergencyStop(); return;\<close> is \<open>emergencyStop\<close>: the \<open>return\<close> is never reached.\<close>

definition performHoming :: "nat \<Rightarrow> env \<Rightarrow> state \<Rightarrow> unit result" where
  "performHoming fuel e s =
     andThen (homeAxis fuel e X_STEP_PIN X_DIR_PIN X_LIMIT_PIN DIR_X_IN CHR ''X'' (enableMotors s)) (\<lambda>ok s1.
       if \<not> ok then emergencyStop s1
       else andThen (homeAxis fuel e Y_STEP_PIN Y_DIR_PIN Y_LIMIT_PIN DIR_Y_DOWN CHR ''Y'' s1) (\<lambda>ok s2.
         if \<not> ok then emergencyStop s2
         else Return () (setState STATE_READY (s2\<lparr>isHomed := True\<rparr>))))"

definition retractSequence :: "env \<Rightarrow> state \<Rightarrow> unit result" where
  "retractSequence e s =
     andThen (moveAxisToLimit e X_STEP_PIN X_DIR_PIN X_LIMIT_PIN DIR_X_IN CHR ''X'' s) (\<lambda>ok s1.
       if \<not> ok then emergencyStop s1
       else andThen (moveAxisToLimit e Y_STEP_PIN Y_DIR_PIN Y_LIMIT_PIN DIR_Y_DOWN CHR ''Y'' s1) (\<lambda>ok s2.
         if \<not> ok then emergencyStop s2
         else Return () (setState STATE_READY s2)))"

text \<open>
  \<open>while (digitalRead(COOL_EN_PIN) == LOW) delay(10);\<close> stands three times in the sketch. Like
  every unbounded loop here, it gets a bound on the number of times its condition is evaluated.
\<close>

fun waitRelease :: "nat \<Rightarrow> env \<Rightarrow> state \<Rightarrow> unit result" where
  "waitRelease 0 e s = Unfinished s"
| "waitRelease (Suc n) e s =
     (if digitalRead e COOL_EN_PIN s = LOW then waitRelease n e (delay 10 s) else Return () s)"

text \<open>
  The \<open>while (true)\<close> loop of \<open>waitForButtonPress\<close>; \<open>fuel\<close> is the bound handed on to the
  release loop inside, \<open>n\<close> the bound of this loop.
\<close>

fun waitPress_loop :: "nat \<Rightarrow> nat \<Rightarrow> env \<Rightarrow> state \<Rightarrow> unit result" where
  "waitPress_loop fuel 0 e s = Unfinished s"
| "waitPress_loop fuel (Suc n) e s =
     andThen (checkEStop e s) (\<lambda>stop s1.
       if stop then Return () s1
       else if digitalRead e COOL_EN_PIN s1 = LOW then
         (let s2 = delay 50 s1 in
          if digitalRead e COOL_EN_PIN s2 = LOW then waitRelease fuel e s2
          else waitPress_loop fuel n e (delay 10 s2))
       else waitPress_loop fuel n e (delay 10 s1))"

definition waitForButtonPress :: "nat \<Rightarrow> env \<Rightarrow> state \<Rightarrow> unit result" where
  "waitForButtonPress fuel e s =
     andThen (waitRelease fuel e s) (\<lambda>u s1. waitPress_loop fuel fuel e (delay 100 s1))"

definition extendSequence :: "nat \<Rightarrow> env \<Rightarrow> state \<Rightarrow> unit result" where
  "extendSequence fuel e s =
     andThen (moveAxis e Y_STEP_PIN Y_DIR_PIN DIR_Y_UP (Y_MAX_TRAVEL_MM * STEPS_PER_MM) s) (\<lambda>u s1.
     andThen (moveAxis e X_STEP_PIN X_DIR_PIN DIR_X_OUT (X_MAX_TRAVEL_MM * STEPS_PER_MM) s1) (\<lambda>u s2.
     andThen (waitForButtonPress fuel e s2) (\<lambda>u s3.
     retractSequence e s3)))"

subsection \<open>Test mode\<close>

text \<open>
  The serial input is the string of bytes received up to each instant; \<open>rx_taken\<close> counts the
  bytes the sketch has read. \<open>Serial.read()\<close> on an empty buffer returns -1, the character 255.
  \<open>while (Serial.available()) Serial.read();\<close> takes no time and so discards exactly the bytes
  received so far.
\<close>

definition Serial_available :: "env \<Rightarrow> state \<Rightarrow> nat" where
  "Serial_available e s = length (serial_rx e (clock s)) - rx_taken s"

definition Serial_read :: "env \<Rightarrow> state \<Rightarrow> char \<times> state" where
  "Serial_read e s =
     (if rx_taken s < length (serial_rx e (clock s))
      then (serial_rx e (clock s) ! rx_taken s, s\<lparr>rx_taken := rx_taken s + 1\<rparr>)
      else (CHR 0xFF, s))"

definition Serial_flush :: "env \<Rightarrow> state \<Rightarrow> state" where
  "Serial_flush e s = s\<lparr>rx_taken := max (rx_taken s) (length (serial_rx e (clock s)))\<rparr>"

text \<open>\<open>while (!Serial.available()) delay(10);\<close>\<close>

fun waitSerial :: "nat \<Rightarrow> env \<Rightarrow> state \<Rightarrow> unit result" where
  "waitSerial 0 e s = Unfinished s"
| "waitSerial (Suc n) e s =
     (if Serial_available e s = 0 then waitSerial n e (delay 10 s) else Return () s)"

text \<open>The watch loop: it prints the inputs every 200 ms until a byte arrives.\<close>

fun watch_loop :: "nat \<Rightarrow> env \<Rightarrow> state \<Rightarrow> unit result" where
  "watch_loop 0 e s = Unfinished s"
| "watch_loop (Suc n) e s =
     (if Serial_available e s = 0 then watch_loop n e (delay 200 s) else Return () s)"

text \<open>
  The measuring loop of command \<open>m\<close>, written out twice in the sketch, once per axis, with the
  pins of that axis.
\<close>

function measure_loop :: "env \<Rightarrow> pin \<Rightarrow> pin \<Rightarrow> int \<Rightarrow> state \<Rightarrow> state" where
  "measure_loop e stepPin limitPin steps s =
     (if digitalRead e limitPin s = HIGH \<and> steps < 100000
      then measure_loop e stepPin limitPin (steps + 1) (stepPulse stepPin TEST_SPEED_DELAY s)
      else s)"
  by pat_completeness auto
termination
  by (relation "measure (\<lambda>(e, stepPin, limitPin, steps, s). nat (100000 - steps))") auto

declare measure_loop.simps [simp del]

text \<open>The \<open>switch\<close> of \<open>testMode\<close> on the command byte.\<close>

definition testMode_command :: "nat \<Rightarrow> env \<Rightarrow> char \<Rightarrow> state \<Rightarrow> unit result" where
  "testMode_command fuel e cmd s =
     (if cmd = CHR ''1'' then
        doSteps X_STEP_PIN (10 * STEPS_PER_MM) TEST_SPEED_DELAY (delay 50 (digitalWrite X_DIR_PIN DIR_X_OUT s))
      else if cmd = CHR ''2'' then
        doSteps X_STEP_PIN (10 * STEPS_PER_MM) TEST_SPEED_DELAY (delay 50 (digitalWrite X_DIR_PIN DIR_X_IN s))
      else if cmd = CHR ''3'' then
        doSteps Y_STEP_PIN (10 * STEPS_PER_MM) TEST_SPEED_DELAY (delay 50 (digitalWrite Y_DIR_PIN DIR_Y_UP s))
      else if cmd = CHR ''4'' then
        doSteps Y_STEP_PIN (10 * STEPS_PER_MM) TEST_SPEED_DELAY (delay 50 (digitalWrite Y_DIR_PIN DIR_Y_DOWN s))
      else if cmd = CHR ''5'' then
        doSteps X_STEP_PIN (50 * STEPS_PER_MM) TEST_SPEED_DELAY (delay 50 (digitalWrite X_DIR_PIN DIR_X_OUT s))
      else if cmd = CHR ''6'' then
        doSteps X_STEP_PIN (50 * STEPS_PER_MM) TEST_SPEED_DELAY (delay 50 (digitalWrite X_DIR_PIN DIR_X_IN s))
      else if cmd = CHR ''7'' then
        doSteps Y_STEP_PIN (50 * STEPS_PER_MM) TEST_SPEED_DELAY (delay 50 (digitalWrite Y_DIR_PIN DIR_Y_UP s))
      else if cmd = CHR ''8'' then
        doSteps Y_STEP_PIN (50 * STEPS_PER_MM) TEST_SPEED_DELAY (delay 50 (digitalWrite Y_DIR_PIN DIR_Y_DOWN s))
      else if cmd = CHR ''m'' \<or> cmd = CHR ''M'' then
        andThen (waitSerial fuel e s) (\<lambda>u s1.
          let (axis, s2) = Serial_read e s1;
              s3 = Serial_flush e s2
          in if axis = CHR ''x'' \<or> axis = CHR ''X'' then
               Return () (measure_loop e X_STEP_PIN X_LIMIT_PIN 0 (delay 50 (digitalWrite X_DIR_PIN DIR_X_IN s3)))
             else if axis = CHR ''y'' \<or> axis = CHR ''Y'' then
               Return () (measure_loop e Y_STEP_PIN Y_LIMIT_PIN 0 (delay 50 (digitalWrite Y_DIR_PIN DIR_Y_DOWN s3)))
             else Return () s3)
      else if cmd = CHR ''h'' \<or> cmd = CHR ''H'' then performHoming fuel e s
      else if cmd = CHR ''s'' \<or> cmd = CHR ''S'' then Return () s
      else if cmd = CHR ''w'' \<or> cmd = CHR ''W'' then
        andThen (watch_loop fuel e s) (\<lambda>u s1. Return () (Serial_flush e s1))
      else if cmd = CHR ''e'' \<or> cmd = CHR ''E'' then extendSequence fuel e s
      else if cmd = CHR ''r'' \<or> cmd = CHR ''R'' then retractSequence e s
      else Return () s)"

fun testMode_loop :: "nat \<Rightarrow> nat \<Rightarrow> env \<Rightarrow> state \<Rightarrow> unit result" where
  "testMode_loop fuel 0 e s = Unfinished s"
| "testMode_loop fuel (Suc n) e s =
     andThen (checkEStop e s) (\<lambda>stop s1.
       if stop then Return () s1
       else
         let s2 = checkMotorIdle s1 in
         andThen
           (if Serial_available e s2 > 0 then
              (let (cmd, s3) = Serial_read e s2;
                   s4 = Serial_flush e s3
               in testMode_command fuel e cmd s4)
            else Return () s2)
           (\<lambda>u s5. testMode_loop fuel n e (delay 10 s5)))"

definition testMode :: "nat \<Rightarrow> env \<Rightarrow> state \<Rightarrow> unit result" where
  "testMode fuel e s = testMode_loop fuel fuel e s"

subsection \<open>The sketch: setup and loop\<close>

text \<open>
  The globals as the sketch initialises them, all output pins low, the clock at 0.
\<close>

definition power_on :: state where
  "power_on = \<lparr>currentState = STATE_INIT, isHomed = False, lastMotorActivity = 0,
     motorsEnabled = False, pin_out = (\<lambda>p. LOW), clock = 0, rx_taken = 0, trace = []\<rparr>"

text \<open>
  \<open>setup\<close> (the \<open>pinMode\<close> calls configure the pins and change nothing the model records) and
  \<open>loop\<close> (without its once-a-second debug print). The core calls \<open>setup\<close> once and then
  \<open>loop\<close> again and again; \<open>sketch fuel n e\<close> is the run from power-on to the end of the
  \<open>n\<close>-th call of \<open>loop\<close>.
\<close>

definition setup_fn :: "nat \<Rightarrow> env \<Rightarrow> state \<Rightarrow> unit result" where
  "setup_fn fuel e s =
     (let s1 = digitalWrite Y_ENABLE_PIN HIGH s;
          s2 = digitalWrite X_ENABLE_PIN HIGH s1;
          s3 = s2\<lparr>motorsEnabled := False\<rparr>;
          s4 = delay 100 s3
      in if TEST_MODE then testMode fuel e (setState STATE_TEST_MODE s4)
         else if AUTO_HOMING then performHoming fuel e (setState STATE_HOMING s4)
         else Return () ((setState STATE_READY s4)\<lparr>isHomed := False\<rparr>))"

definition loop :: "nat \<Rightarrow> env \<Rightarrow> state \<Rightarrow> unit result" where
  "loop fuel e s =
     (if digitalRead e E_STOP_PIN s = LOW then emergencyStop s
      else
        let s1 = checkMotorIdle s in
        andThen
          (case currentState s1 of
             STATE_READY \<Rightarrow>
               (if digitalRead e COOL_EN_PIN s1 = LOW then
                  (let s2 = delay 50 s1 in
                   if digitalRead e COOL_EN_PIN s2 = LOW then
                     andThen (waitRelease fuel e s2) (\<lambda>u s3.
                       if \<not> isHomed s3 then performHoming fuel e (setState STATE_HOMING s3)
                       else extendSequence fuel e (setState STATE_EXTENDING s3))
                   else Return () s2)
                else Return () s1)
           | STATE_EXTENDING \<Rightarrow> Return () (setState STATE_READY s1)
           | _ \<Rightarrow> Return () s1)
          (\<lambda>u s4. Return () (delay 10 s4)))"

fun loops :: "nat \<Rightarrow> nat \<Rightarrow> env \<Rightarrow> state \<Rightarrow> unit result" where
  "loops fuel 0 e s = Return () s"
| "loops fuel (Suc n) e s = andThen (loop fuel e s) (\<lambda>u s'. loops fuel n e s')"

definition sketch :: "nat \<Rightarrow> nat \<Rightarrow> env \<Rightarrow> unit result" where
  "sketch fuel n e = andThen (setup_fn fuel e power_on) (\<lambda>u s. loops fuel n e s)"

subsection \<open>Reference runs\<close>

text \<open>
  \<open>pulsesFrom p d k j s\<close> is the state after \<open>j\<close> consecutive step pulses on pin \<open>p\<close> that
  start in \<open>s\<close>, the pulse with index \<open>k + i\<close> followed by the delay \<open>d (k + i)\<close>;
  \<open>pulse_train\<close> is what these pulses add to the log and \<open>train_time\<close> how long they take.
\<close>

fun pulsesFrom :: "pin \<Rightarrow> (int \<Rightarrow> 16 word) \<Rightarrow> int \<Rightarrow> nat \<Rightarrow> state \<Rightarrow> state" where
  "pulsesFrom p d k 0 s = s"
| "pulsesFrom p d k (Suc j) s = pulsesFrom p d (k + 1) j (stepPulse p (d k) s)"

fun pulse_train :: "pin \<Rightarrow> (int \<Rightarrow> 16 word) \<Rightarrow> int \<Rightarrow> nat \<Rightarrow> event list" where
  "pulse_train p d k 0 = []"
| "pulse_train p d k (Suc j) =
     [Write p HIGH, Wait 50, Write p LOW, Wait (unat (d k))] @ pulse_train p d (k + 1) j"

fun train_time :: "(int \<Rightarrow> 16 word) \<Rightarrow> int \<Rightarrow> nat \<Rightarrow> nat" where
  "train_time d k 0 = 0"
| "train_time d k (Suc j) = 50 + unat (d k) + train_time d (k + 1) j"

text \<open>
  The state in which \<open>moveAxisToLimit\<close> evaluates its loop condition after \<open>j\<close> steps.
\<close>

definition seek_state :: "pin \<Rightarrow> pin \<Rightarrow> level \<Rightarrow> nat \<Rightarrow> state \<Rightarrow> state" where
  "seek_state stepPin dirPin direction j s =
     pulsesFrom stepPin moveAxisToLimit_delay 0 j (delay 50 (digitalWrite dirPin direction (enableMotors s)))"

text \<open>Inputs for the reference runs: both limit switches closed, nothing else pressed.\<close>

definition at_limits :: env where
  "at_limits = \<lparr>pin_level = (\<lambda>t p. if p = X_LIMIT_PIN \<or> p = Y_LIMIT_PIN then LOW else HIGH),
     serial_rx = (\<lambda>t. [])\<rparr>"

text \<open>
  The state in which \<open>homeAxis\<close> evaluates its loop condition after \<open>j\<close> steps, when the limit
  input read high on entry.
\<close>

definition home_state :: "pin \<Rightarrow> pin \<Rightarrow> level \<Rightarrow> nat \<Rightarrow> state \<Rightarrow> state" where
  "home_state stepPin dirPin direction j s =
     pulsesFrom stepPin homeAxis_delay 0 j (delay 50 (digitalWrite dirPin direction s))"

text \<open>An input on which pin \<open>p\<close> reads low from time \<open>T\<close> on and every other input reads high.\<close>

definition limit_after :: "nat \<Rightarrow> pin \<Rightarrow> env" where
  "limit_after T p = \<lparr>pin_level = (\<lambda>t q. if q = p \<and> T \<le> t then LOW else HIGH), serial_rx = (\<lambda>t. [])\<rparr>"

text \<open>
  The state in which \<open>moveAxis\<close> polls the emergency stop for step \<open>j\<close> (or, with
  \<open>j = steps\<close>, leaves its loop).
\<close>

definition move_state :: "pin \<Rightarrow> pin \<Rightarrow> level \<Rightarrow> int \<Rightarrow> nat \<Rightarrow> state \<Rightarrow> state" where
  "move_state stepPin dirPin direction steps j s =
     pulsesFrom stepPin (moveAxis_delay steps) 0 j (delay 50 (digitalWrite dirPin direction (enableMotors s)))"

text \<open>An input with the emergency stop pressed at every instant and nothing else closed.\<close>

definition estop_pressed :: env where
  "estop_pressed = \<lparr>pin_level = (\<lambda>t p. if p = E_STOP_PIN then LOW else HIGH), serial_rx = (\<lambda>t. [])\<rparr>"

text \<open>An input on which no switch ever closes: every pin reads high.\<close>

definition nothing_closes :: env where
  "nothing_closes = \<lparr>pin_level = (\<lambda>t p. HIGH), serial_rx = (\<lambda>t. [])\<rparr>"

text \<open>
  An input on which the X limit reads low from time \<open>Tx\<close> on, the Y limit from time \<open>Ty\<close> on,
  and every other pin reads high.
\<close>

definition limits_after :: "nat \<Rightarrow> nat \<Rightarrow> env" where
  "limits_after Tx Ty =
     \<lparr>pin_level = (\<lambda>t p. if p = X_LIMIT_PIN \<and> Tx \<le> t \<or> p = Y_LIMIT_PIN \<and> Ty \<le> t then LOW else HIGH),
      serial_rx = (\<lambda>t. [])\<rparr>"

text \<open>
  The state in which \<open>setup\<close> calls \<open>testMode\<close> when the sketch is built with \<open>TEST_MODE\<close>
  set: both enable outputs written high, 100 ms later \<open>currentState\<close> set to \<open>STATE_TEST_MODE\<close>.
\<close>

definition test_mode_entry :: state where
  "test_mode_entry =
     setState STATE_TEST_MODE
       (delay 100 ((digitalWrite X_ENABLE_PIN HIGH (digitalWrite Y_ENABLE_PIN HIGH power_on))\<lparr>motorsEnabled := False\<rparr>))"

text \<open>
  An input for the measuring command: the byte \<open>m\<close> is in the receive buffer at start-up, the
  byte \<open>x\<close> arrives 110 ms after power-on, and the X limit reads low from 163 ms on; every other
  pin reads high.
\<close>

definition measure_env :: env where
  "measure_env =
     \<lparr>pin_level = (\<lambda>t p. if p = X_LIMIT_PIN \<and> 163000 \<le> t then LOW else HIGH),
      serial_rx = (\<lambda>t. if t < 110000 then ''m'' else ''mx'')\<rparr>"

text \<open>The state in which the measuring loop of that run stops, after two steps.\<close>

definition measured :: state where
  "measured =
     stepPulse X_STEP_PIN TEST_SPEED_DELAY (stepPulse X_STEP_PIN TEST_SPEED_DELAY
       (delay 50 (digitalWrite X_DIR_PIN DIR_X_IN ((delay 10 (test_mode_entry\<lparr>rx_taken := 1\<rparr>))\<lparr>rx_taken := 2\<rparr>))))"

text \<open>
  A complete cycle from power-on. \<open>extended_at\<close> is the time at which \<open>extendSequence\<close>, started
  at time 0 and never stopped, has finished its two moves. On the input \<open>cycle_env\<close> the button
  is pressed from 100 ms to 160 ms after that, the X limit closes 223 ms after it and the Y limit
  284 ms after it; the emergency stop is never pressed. \<open>extended\<close> is the state after the two
  moves, \<open>retracted\<close> the state in which the cycle ends: one step of X and one of Y after the
  button has been released.
\<close>

definition extended_at :: nat where
  "extended_at =
     120000 + train_time (moveAxis_delay (Y_MAX_TRAVEL_MM * STEPS_PER_MM)) 0 3440
            + train_time (moveAxis_delay (X_MAX_TRAVEL_MM * STEPS_PER_MM)) 0 6480"

definition cycle_env :: env where
  "cycle_env =
     \<lparr>pin_level = (\<lambda>t p.
        if p = COOL_EN_PIN then (if extended_at + 100000 \<le> t \<and> t < extended_at + 160000 then LOW else HIGH)
        else if p = X_LIMIT_PIN then (if extended_at + 223000 \<le> t then LOW else HIGH)
        else if p = Y_LIMIT_PIN then (if extended_at + 284000 \<le> t then LOW else HIGH)
        else HIGH),
      serial_rx = (\<lambda>t. [])\<rparr>"

definition extended :: state where
  "extended =
     (let s1 = move_state Y_STEP_PIN Y_DIR_PIN DIR_Y_UP 3440 3440 power_on;
          s2 = move_state X_STEP_PIN X_DIR_PIN DIR_X_OUT 6480 6480 (s1\<lparr>lastMotorActivity := millis s1\<rparr>)
      in s2\<lparr>lastMotorActivity := millis s2\<rparr>)"

definition retracted :: state where
  "retracted =
     (let s3 = delay 10 (delay 50 (delay 100 extended));
          s4 = seek_state X_STEP_PIN X_DIR_PIN DIR_X_IN 1 s3;
          s5 = seek_state Y_STEP_PIN Y_DIR_PIN DIR_Y_DOWN 1 (s4\<lparr>lastMotorActivity := millis s4\<rparr>)
      in setState STATE_READY (s5\<lparr>lastMotorActivity := millis s5\<rparr>))"

text \<open>
  The extend command of the test mode: the byte \<open>e\<close> is in the receive buffer at start-up and no
  input ever reads low. \<open>test_extended\<close> is the state in which the wait for the button then runs
  out of its bound, both moves done.
\<close>

definition extend_command_env :: env where
  "extend_command_env = \<lparr>pin_level = (\<lambda>t p. HIGH), serial_rx = (\<lambda>t. ''e'')\<rparr>"

definition test_extended :: state where
  "test_extended =
     (let s1 = move_state Y_STEP_PIN Y_DIR_PIN DIR_Y_UP 3440 3440 (test_mode_entry\<lparr>rx_taken := 1\<rparr>);
          s2 = move_state X_STEP_PIN X_DIR_PIN DIR_X_OUT 6480 6480 (s1\<lparr>lastMotorActivity := millis s1\<rparr>)
      in delay 10 (delay 100 (s2\<lparr>lastMotorActivity := millis s2\<rparr>)))"

subsection \<open>What a log shows\<close>

text \<open>
  Observations on a log. \<open>moves d es\<close> lists the step pulses of \<open>es\<close> in order, each with its step
  pin and the level its direction pin has at that moment (\<open>d\<close> holds the levels of the two
  direction pins before \<open>es\<close>). \<open>state_changes es\<close> lists the values assigned to
  \<open>currentState\<close>. \<open>pulse_states st es\<close> lists, for each step pulse, the value \<open>currentState\<close>
  has when it is issued (\<open>st\<close> is the value before \<open>es\<close>).

  \<open>effect s r ms cs\<close> says what the run from state \<open>s\<close> to the result \<open>r\<close> added to the log: step
  pulses \<open>ms\<close> and assignments \<open>cs\<close>, with every pulse issued before the first assignment, and
  \<open>currentState\<close> ending as the last value assigned. \<open>halted\<close> and \<open>finished\<close> are the
  assignments a primitive, respectively a sequence, makes when it ends.
\<close>

fun dir_step :: "level \<times> level \<Rightarrow> event \<Rightarrow> level \<times> level" where
  "dir_step (dx, dy) (Write p v) =
     (if p = X_DIR_PIN then (v, dy) else if p = Y_DIR_PIN then (dx, v) else (dx, dy))"
| "dir_step d (Wait n) = d"
| "dir_step d (SetState st) = d"

fun dirs :: "level \<times> level \<Rightarrow> event list \<Rightarrow> level \<times> level" where
  "dirs d [] = d"
| "dirs d (ev # es) = dirs (dir_step d ev) es"

fun move_of :: "level \<times> level \<Rightarrow> event \<Rightarrow> (pin \<times> level) list" where
  "move_of (dx, dy) (Write p v) =
     (if p = X_STEP_PIN \<and> v = HIGH then [(X_STEP_PIN, dx)]
      else if p = Y_STEP_PIN \<and> v = HIGH then [(Y_STEP_PIN, dy)]
      else [])"
| "move_of d (Wait n) = []"
| "move_of d (SetState st) = []"

fun moves :: "level \<times> level \<Rightarrow> event list \<Rightarrow> (pin \<times> level) list" where
  "moves d [] = []"
| "moves d (ev # es) = move_of d ev @ moves (dir_step d ev) es"

fun state_changes :: "event list \<Rightarrow> SystemState list" where
  "state_changes [] = []"
| "state_changes (SetState st # es) = st # state_changes es"
| "state_changes (Write p v # es) = state_changes es"
| "state_changes (Wait n # es) = state_changes es"

fun pulse_states :: "SystemState \<Rightarrow> event list \<Rightarrow> SystemState list" where
  "pulse_states st [] = []"
| "pulse_states st (SetState st' # es) = pulse_states st' es"
| "pulse_states st (Write p v # es) =
     (if (p = X_STEP_PIN \<or> p = Y_STEP_PIN) \<and> v = HIGH then st # pulse_states st es
      else pulse_states st es)"
| "pulse_states st (Wait n # es) = pulse_states st es"

definition effect :: "state \<Rightarrow> 'a result \<Rightarrow> (pin \<times> level) list \<Rightarrow> SystemState list \<Rightarrow> bool" where
  "effect s r ms cs =
     (\<exists>new. trace (state_of r) = trace s @ new \<and> (\<forall>d. moves d new = ms) \<and> state_changes new = cs \<and>
            (\<forall>st. pulse_states st new = replicate (length ms) st) \<and>
            currentState (state_of r) = last (currentState s # cs))"

definition is_axis :: "pin \<Rightarrow> pin \<Rightarrow> bool" where
  "is_axis stepPin dirPin =
     (stepPin = X_STEP_PIN \<and> dirPin = X_DIR_PIN \<or> stepPin = Y_STEP_PIN \<and> dirPin = Y_DIR_PIN)"

definition stop_tail :: "'a result \<Rightarrow> event list" where
  "stop_tail r =
     (case r of Halt s \<Rightarrow> [Write Y_ENABLE_PIN HIGH, Write X_ENABLE_PIN HIGH, SetState STATE_STOPPED]
      | _ \<Rightarrow> [])"

definition halted :: "'a result \<Rightarrow> SystemState list" where
  "halted r = (case r of Halt s \<Rightarrow> [STATE_STOPPED] | _ \<Rightarrow> [])"

definition finished :: "'a result \<Rightarrow> SystemState list" where
  "finished r = (case r of Return a s \<Rightarrow> [STATE_READY] | Halt s \<Rightarrow> [STATE_STOPPED] | Unfinished s \<Rightarrow> [])"

text \<open>
  The power of the drivers as a log shows it: \<open>Off\<close> once an enable output is written high,
  \<open>Waking\<close> once one is written low, \<open>Awake\<close> once a delay of at least the 10 ms of
  \<open>enableMotors\<close> has followed that. \<open>pulse_power pw es\<close> lists, for each step pulse of \<open>es\<close>,
  the power at the moment the pulse is issued; \<open>pw\<close> is the power before \<open>es\<close>.

  \<open>keeps_power pw s r\<close>: in the run from \<open>s\<close> to \<open>r\<close>, entered with power \<open>pw\<close>, every step
  pulse is issued with the drivers awake, and they are awake when the run returns.
  \<open>steps_powered s r\<close>: every step pulse of the run is issued with the drivers awake, whatever the
  power before it.
\<close>

datatype power = Off | Waking | Awake

fun power_step :: "power \<Rightarrow> event \<Rightarrow> power" where
  "power_step pw (Write p v) =
     (if p = X_ENABLE_PIN \<or> p = Y_ENABLE_PIN then (if v = LOW then Waking else Off) else pw)"
| "power_step pw (Wait n) = (if pw = Waking \<and> 10000 \<le> n then Awake else pw)"
| "power_step pw (SetState st) = pw"

fun power_after :: "power \<Rightarrow> event list \<Rightarrow> power" where
  "power_after pw [] = pw"
| "power_after pw (ev # es) = power_after (power_step pw ev) es"

fun is_pulse :: "event \<Rightarrow> bool" where
  "is_pulse (Write p v) = ((p = X_STEP_PIN \<or> p = Y_STEP_PIN) \<and> v = HIGH)"
| "is_pulse (Wait n) = False"
| "is_pulse (SetState st) = False"

fun pulse_power :: "power \<Rightarrow> event list \<Rightarrow> power list" where
  "pulse_power pw [] = []"
| "pulse_power pw (ev # es) =
     (if is_pulse ev then pw # pulse_power (power_step pw ev) es else pulse_power (power_step pw ev) es)"

definition keeps_power :: "power \<Rightarrow> state \<Rightarrow> 'a result \<Rightarrow> bool" where
  "keeps_power pw s r =
     (\<exists>new. trace (state_of r) = trace s @ new \<and> set (pulse_power pw new) \<subseteq> {Awake} \<and>
            (\<forall>a s'. r = Return a s' \<longrightarrow> power_after pw new = Awake))"

definition steps_powered :: "state \<Rightarrow> 'a result \<Rightarrow> bool" where
  "steps_powered s r =
     (\<exists>new. trace (state_of r) = trace s @ new \<and> (\<forall>pw. set (pulse_power pw new) \<subseteq> {Awake}))"

text \<open>
  \<open>run_log s r ms cs tag\<close> is \<open>effect\<close> for a run that may assign \<open>currentState\<close> before
  its first pulse: every pulse of the run is issued while \<open>currentState\<close> is \<open>tag\<close>. A piece of
  log is \<open>quiet\<close> when it holds no step pulse and no assignment to \<open>currentState\<close>. A state
  is \<open>tracked\<close> when \<open>currentState\<close> is the last value its log assigned (\<open>STATE_INIT\<close> if none),
  the log assigns only \<open>STATE_HOMING\<close>, \<open>STATE_READY\<close>, \<open>STATE_EXTENDING\<close> and \<open>STATE_STOPPED\<close>,
  and every pulse in it was issued in \<open>STATE_HOMING\<close> or \<open>STATE_EXTENDING\<close>.
\<close>

definition run_log :: "state \<Rightarrow> 'a result \<Rightarrow> (pin \<times> level) list \<Rightarrow> SystemState list \<Rightarrow> SystemState \<Rightarrow> bool" where
  "run_log s r ms cs tag =
     (\<exists>new. trace (state_of r) = trace s @ new \<and> (\<forall>d. moves d new = ms) \<and> state_changes new = cs \<and>
            (\<forall>st. pulse_states st new = replicate (length ms) tag) \<and>
            currentState (state_of r) = last (currentState s # cs))"

definition quiet :: "event list \<Rightarrow> bool" where
  "quiet pre = ((\<forall>d. moves d pre = []) \<and> state_changes pre = [] \<and> (\<forall>st. pulse_states st pre = []))"

definition tracked :: "state \<Rightarrow> bool" where
  "tracked s =
     (currentState s = last (STATE_INIT # state_changes (trace s)) \<and>
      set (state_changes (trace s)) \<subseteq> {STATE_HOMING, STATE_READY, STATE_EXTENDING, STATE_STOPPED} \<and>
      set (pulse_states STATE_INIT (trace s)) \<subseteq> {STATE_HOMING, STATE_EXTENDING})"

text \<open>
  \<open>assigns_within A s r\<close>: the run from \<open>s\<close> to \<open>r\<close> assigns only values of \<open>A\<close> to
  \<open>currentState\<close>, which ends as the last value assigned.
\<close>

definition assigns_within :: "SystemState set \<Rightarrow> state \<Rightarrow> 'a result \<Rightarrow> bool" where
  "assigns_within A s r =
     (\<exists>new. trace (state_of r) = trace s @ new \<and> set (state_changes new) \<subseteq> A \<and>
            currentState (state_of r) = last (currentState s # state_changes new))"

section \<open>Basic facts\<close>

lemmas pin_defs = X_STEP_PIN_def X_DIR_PIN_def X_ENABLE_PIN_def Y_STEP_PIN_def Y_DIR_PIN_def
  Y_ENABLE_PIN_def X_LIMIT_PIN_def Y_LIMIT_PIN_def COOL_EN_PIN_def E_STOP_PIN_def

lemma level_not_HIGH [simp]: "(l \<noteq> HIGH) = (l = LOW)"
  by (cases l) simp_all

lemma level_not_LOW [simp]: "(l \<noteq> LOW) = (l = HIGH)"
  by (cases l) simp_all

lemma stepPulse_fields [simp]:
  "trace (stepPulse p w s) = trace s @ [Write p HIGH, Wait 50, Write p LOW, Wait (unat w)]"
  "clock (stepPulse p w s) = clock s + 50 + unat w"
  "currentState (stepPulse p w s) = currentState s"
  "isHomed (stepPulse p w s) = isHomed s"
  "lastMotorActivity (stepPulse p w s) = lastMotorActivity s"
  "motorsEnabled (stepPulse p w s) = motorsEnabled s"
  "rx_taken (stepPulse p w s) = rx_taken s"
  "pin_out (stepPulse p w s) = (pin_out s)(p := LOW)"
  by (simp_all add: stepPulse_def digitalWrite_def delayMicroseconds_def)

lemma pulsesFrom_fields [simp]:
  "trace (pulsesFrom p d k j s) = trace s @ pulse_train p d k j"
  "clock (pulsesFrom p d k j s) = clock s + train_time d k j"
  "currentState (pulsesFrom p d k j s) = currentState s"
  "isHomed (pulsesFrom p d k j s) = isHomed s"
  "lastMotorActivity (pulsesFrom p d k j s) = lastMotorActivity s"
  "motorsEnabled (pulsesFrom p d k j s) = motorsEnabled s"
  "rx_taken (pulsesFrom p d k j s) = rx_taken s"
  by (induction j arbitrary: k s; simp)+

lemma pulsesFrom_pin_out:
  "pin_out (pulsesFrom p d k j s) = (if j = 0 then pin_out s else (pin_out s)(p := LOW))"
  by (induction j arbitrary: k s) auto

lemma pulsesFrom_Suc_end:
  "pulsesFrom p d k (Suc j) s = stepPulse p (d (k + int j)) (pulsesFrom p d k j s)"
proof (induction j arbitrary: k s)
  case 0
  show ?case by simp
next
  case (Suc j)
  have "pulsesFrom p d k (Suc (Suc j)) s = pulsesFrom p d (k + 1) (Suc j) (stepPulse p (d k) s)"
    by simp
  also have "\<dots> = stepPulse p (d (k + 1 + int j)) (pulsesFrom p d (k + 1) j (stepPulse p (d k) s))"
    by (rule Suc.IH)
  also have "\<dots> = stepPulse p (d (k + int (Suc j))) (pulsesFrom p d k (Suc j) s)"
    by (simp add: add.assoc)
  finally show ?case .
qed

lemma start_fields [simp]:
  "trace (delay 50 (digitalWrite dirPin direction (enableMotors s))) =
     trace s @ [Write Y_ENABLE_PIN LOW, Write X_ENABLE_PIN LOW, Wait 10000, Write dirPin direction, Wait 50000]"
  "clock (delay 50 (digitalWrite dirPin direction (enableMotors s))) = clock s + 60000"
  "currentState (delay 50 (digitalWrite dirPin direction (enableMotors s))) = currentState s"
  "isHomed (delay 50 (digitalWrite dirPin direction (enableMotors s))) = isHomed s"
  "motorsEnabled (delay 50 (digitalWrite dirPin direction (enableMotors s))) = True"
  "lastMotorActivity (delay 50 (digitalWrite dirPin direction (enableMotors s))) = millis s"
  "rx_taken (delay 50 (digitalWrite dirPin direction (enableMotors s))) = rx_taken s"
  by (simp_all add: enableMotors_def delay_def delayMicroseconds_def digitalWrite_def millis_def Let_def)

lemma stopped_fields [simp]:
  "trace (stopped s) = trace s @ [Write Y_ENABLE_PIN HIGH, Write X_ENABLE_PIN HIGH, SetState STATE_STOPPED]"
  "clock (stopped s) = clock s"
  "currentState (stopped s) = STATE_STOPPED"
  "isHomed (stopped s) = False"
  "pin_out (stopped s) X_ENABLE_PIN = HIGH"
  "pin_out (stopped s) Y_ENABLE_PIN = HIGH"
  by (simp_all add: stopped_def digitalWrite_def setState_def Let_def pin_defs)

lemma checkEStop_simps:
  "digitalRead e E_STOP_PIN s = LOW \<Longrightarrow> checkEStop e s = Halt (stopped s)"
  "digitalRead e E_STOP_PIN s = HIGH \<Longrightarrow> checkEStop e s = Return False s"
  by (simp_all add: checkEStop_def emergencyStop_def andThen_def)

lemma maxSteps_value: "maxSteps a = (if a = CHR ''Y'' then 4128 else 7776)"
  by (simp add: maxSteps_def X_MAX_TRAVEL_MM_def Y_MAX_TRAVEL_MM_def STEPS_PER_MM_def
      signed_divide_int_def)

section \<open>Moves to a limit switch\<close>

text \<open>
  Every run of the loop of \<open>moveAxisToLimit\<close> has this shape: for some \<open>j\<close> the limit input and
  the emergency-stop input read high at the first \<open>j\<close> evaluations of the loop condition, \<open>j\<close>
  pulses are issued, and at evaluation \<open>j\<close> the loop ends in one of three ways.
\<close>

lemma moveAxisToLimit_loop_run:
  "\<exists>j. stepCount + int j \<le> max stepCount maxS \<and>
     (\<forall>i<j. digitalRead e limitPin (pulsesFrom stepPin moveAxisToLimit_delay stepCount i s) = HIGH
            \<and> digitalRead e E_STOP_PIN (pulsesFrom stepPin moveAxisToLimit_delay stepCount i s) = HIGH) \<and>
     (let sj = pulsesFrom stepPin moveAxisToLimit_delay stepCount j s in
        if digitalRead e limitPin sj = HIGH \<and> stepCount + int j < maxS
        then digitalRead e E_STOP_PIN sj = LOW \<and>
             moveAxisToLimit_loop e stepPin limitPin maxS stepCount s = Halt (stopped sj)
        else if stepCount + int j \<ge> maxS
        then moveAxisToLimit_loop e stepPin limitPin maxS stepCount s = Return False sj
        else moveAxisToLimit_loop e stepPin limitPin maxS stepCount s
               = Return True (sj\<lparr>lastMotorActivity := millis sj\<rparr>))"
proof (induction e stepPin limitPin maxS stepCount s rule: moveAxisToLimit_loop.induct)
  case (1 e stepPin limitPin maxS stepCount s)
  let ?go = "digitalRead e limitPin s = HIGH \<and> stepCount < maxS"
  let ?s1 = "stepPulse stepPin (moveAxisToLimit_delay stepCount) s"
  show ?case
  proof (cases "?go \<and> digitalRead e E_STOP_PIN s = HIGH")
    case True
    then have ce: "checkEStop e s = Return False s"
      by (simp add: checkEStop_simps)
    from "1.IH"[OF _ ce] True
    obtain j where j:
      "stepCount + 1 + int j \<le> max (stepCount + 1) maxS"
      "\<forall>i<j. digitalRead e limitPin (pulsesFrom stepPin moveAxisToLimit_delay (stepCount + 1) i ?s1) = HIGH
            \<and> digitalRead e E_STOP_PIN (pulsesFrom stepPin moveAxisToLimit_delay (stepCount + 1) i ?s1) = HIGH"
      "(let sj = pulsesFrom stepPin moveAxisToLimit_delay (stepCount + 1) j ?s1 in
        if digitalRead e limitPin sj = HIGH \<and> stepCount + 1 + int j < maxS
        then digitalRead e E_STOP_PIN sj = LOW \<and>
             moveAxisToLimit_loop e stepPin limitPin maxS (stepCount + 1) ?s1 = Halt (stopped sj)
        else if stepCount + 1 + int j \<ge> maxS
        then moveAxisToLimit_loop e stepPin limitPin maxS (stepCount + 1) ?s1 = Return False sj
        else moveAxisToLimit_loop e stepPin limitPin maxS (stepCount + 1) ?s1
               = Return True (sj\<lparr>lastMotorActivity := millis sj\<rparr>))"
      by auto
    have unfold: "moveAxisToLimit_loop e stepPin limitPin maxS stepCount s =
        moveAxisToLimit_loop e stepPin limitPin maxS (stepCount + 1) ?s1"
      using True ce by (subst moveAxisToLimit_loop.simps) (simp add: andThen_def)
    have all: "\<forall>i<Suc j. digitalRead e limitPin (pulsesFrom stepPin moveAxisToLimit_delay stepCount i s) = HIGH
            \<and> digitalRead e E_STOP_PIN (pulsesFrom stepPin moveAxisToLimit_delay stepCount i s) = HIGH"
    proof (intro allI impI)
      fix i assume "i < Suc j"
      then show "digitalRead e limitPin (pulsesFrom stepPin moveAxisToLimit_delay stepCount i s) = HIGH
            \<and> digitalRead e E_STOP_PIN (pulsesFrom stepPin moveAxisToLimit_delay stepCount i s) = HIGH"
        using True j(2) by (cases i) auto
    qed
    show ?thesis
      apply (rule exI[of _ "Suc j"])
      using j(1) j(3) True all unfolding unfold Let_def
      by (auto simp: add.assoc split: if_splits)
  next
    case False
    show ?thesis
      apply (rule exI[of _ 0])
      using False
      by (subst (1 2 3) moveAxisToLimit_loop.simps) (auto simp: checkEStop_simps andThen_def)
  qed
qed

text \<open>
  Claim C6. When the limit input already reads low at the first evaluation of the loop
  condition, \<open>moveAxisToLimit\<close> returns true and the log gains nothing but the two enable
  writes, the direction write and the two settling delays: no step pulse. When it reads low on
  entry, \<open>homeAxis\<close> returns true at once and leaves the state as it is.
\<close>

theorem limit_already_asserted:
  "(digitalRead e limitPin (delay 50 (digitalWrite dirPin direction (enableMotors s))) = LOW \<longrightarrow>
      (\<exists>s'. moveAxisToLimit e stepPin dirPin limitPin direction axisName s = Return True s' \<and>
            trace s' = trace s @ [Write Y_ENABLE_PIN LOW, Write X_ENABLE_PIN LOW, Wait 10000,
                                   Write dirPin direction, Wait 50000])) \<and>
   (digitalRead e limitPin s = LOW \<longrightarrow>
      homeAxis fuel e stepPin dirPin limitPin direction axisName s = Return True s)"
proof (intro conjI impI)
  assume low: "digitalRead e limitPin (delay 50 (digitalWrite dirPin direction (enableMotors s))) = LOW"
  have pos: "\<not> (0::int) \<ge> maxSteps axisName"
    by (simp add: maxSteps_value)
  show "\<exists>s'. moveAxisToLimit e stepPin dirPin limitPin direction axisName s = Return True s' \<and>
            trace s' = trace s @ [Write Y_ENABLE_PIN LOW, Write X_ENABLE_PIN LOW, Wait 10000,
                                   Write dirPin direction, Wait 50000]"
    unfolding moveAxisToLimit_def
    using low pos by (subst moveAxisToLimit_loop.simps) simp
next
  assume "digitalRead e limitPin s = LOW"
  then show "homeAxis fuel e stepPin dirPin limitPin direction axisName s = Return True s"
    by (simp add: homeAxis_def)
qed

theorem limit_already_asserted_witness:
  "digitalRead at_limits X_LIMIT_PIN (delay 50 (digitalWrite X_DIR_PIN DIR_X_IN (enableMotors power_on))) = LOW \<and>
   (\<exists>s'. moveAxisToLimit at_limits X_STEP_PIN X_DIR_PIN X_LIMIT_PIN DIR_X_IN CHR ''X'' power_on = Return True s' \<and>
         trace s' = [Write 8 LOW, Write 8 LOW, Wait 10000, Write 5 HIGH, Wait 50000]) \<and>
   digitalRead at_limits X_LIMIT_PIN power_on = LOW \<and>
   homeAxis 0 at_limits X_STEP_PIN X_DIR_PIN X_LIMIT_PIN DIR_X_IN CHR ''X'' power_on = Return True power_on"
  using limit_already_asserted[where e = at_limits and limitPin = X_LIMIT_PIN and dirPin = X_DIR_PIN
      and direction = DIR_X_IN and s = power_on and stepPin = X_STEP_PIN and axisName = "CHR ''X''"
      and fuel = 0]
  by (simp add: digitalRead_def at_limits_def power_on_def pin_defs DIR_X_IN_def)

lemma moveAxisToLimit_loop_step:
  "digitalRead e limitPin s = HIGH \<Longrightarrow> stepCount < maxS \<Longrightarrow> digitalRead e E_STOP_PIN s = HIGH \<Longrightarrow>
   moveAxisToLimit_loop e stepPin limitPin maxS stepCount s =
     moveAxisToLimit_loop e stepPin limitPin maxS (stepCount + 1)
       (stepPulse stepPin (moveAxisToLimit_delay stepCount) s)"
  by (subst moveAxisToLimit_loop.simps) (simp add: checkEStop_simps andThen_def)

lemma moveAxisToLimit_loop_unroll:
  "(\<forall>i<j. digitalRead e limitPin (pulsesFrom stepPin moveAxisToLimit_delay k i s) = HIGH \<and>
          digitalRead e E_STOP_PIN (pulsesFrom stepPin moveAxisToLimit_delay k i s) = HIGH) \<Longrightarrow>
   k + int j \<le> maxS \<Longrightarrow>
   moveAxisToLimit_loop e stepPin limitPin maxS k s =
     moveAxisToLimit_loop e stepPin limitPin maxS (k + int j) (pulsesFrom stepPin moveAxisToLimit_delay k j s)"
proof (induction j)
  case 0
  show ?case by simp
next
  case (Suc j)
  have "moveAxisToLimit_loop e stepPin limitPin maxS k s =
     moveAxisToLimit_loop e stepPin limitPin maxS (k + int j) (pulsesFrom stepPin moveAxisToLimit_delay k j s)"
    using Suc by simp
  also have "\<dots> = moveAxisToLimit_loop e stepPin limitPin maxS (k + int j + 1)
       (stepPulse stepPin (moveAxisToLimit_delay (k + int j)) (pulsesFrom stepPin moveAxisToLimit_delay k j s))"
    using Suc.prems by (intro moveAxisToLimit_loop_step) simp_all
  finally have "moveAxisToLimit_loop e stepPin limitPin maxS k s =
      moveAxisToLimit_loop e stepPin limitPin maxS (k + int j + 1)
       (stepPulse stepPin (moveAxisToLimit_delay (k + int j)) (pulsesFrom stepPin moveAxisToLimit_delay k j s))" .
  moreover have "k + int (Suc j) = k + int j + 1"
    by simp
  ultimately show ?case
    by (simp only: pulsesFrom_Suc_end)
qed

lemma moveAxisToLimit_run:
  "\<exists>j. int j \<le> maxSteps a \<and>
     (\<forall>i<j. digitalRead e limitPin (seek_state stepPin dirPin direction i s) = HIGH
            \<and> digitalRead e E_STOP_PIN (seek_state stepPin dirPin direction i s) = HIGH) \<and>
     (let sj = seek_state stepPin dirPin direction j s in
        if digitalRead e limitPin sj = HIGH \<and> int j < maxSteps a
        then digitalRead e E_STOP_PIN sj = LOW \<and>
             moveAxisToLimit e stepPin dirPin limitPin direction a s = Halt (stopped sj)
        else if int j \<ge> maxSteps a
        then moveAxisToLimit e stepPin dirPin limitPin direction a s = Return False sj
        else moveAxisToLimit e stepPin dirPin limitPin direction a s
               = Return True (sj\<lparr>lastMotorActivity := millis sj\<rparr>))"
proof -
  have m: "max 0 (maxSteps a) = maxSteps a"
    by (simp add: maxSteps_value)
  show ?thesis
    using moveAxisToLimit_loop_run[of 0 "maxSteps a" e limitPin stepPin
        "delay 50 (digitalWrite dirPin direction (enableMotors s))"]
    unfolding moveAxisToLimit_def seek_state_def m add_0 .
qed

lemma seek_state_trace [simp]:
  "trace (seek_state stepPin dirPin direction j s) =
     trace s @ [Write Y_ENABLE_PIN LOW, Write X_ENABLE_PIN LOW, Wait 10000, Write dirPin direction, Wait 50000]
       @ pulse_train stepPin moveAxisToLimit_delay 0 j"
  by (simp add: seek_state_def)

lemma seek_state_clock [simp]:
  "clock (seek_state stepPin dirPin direction j s) = clock s + 60000 + train_time moveAxisToLimit_delay 0 j"
  by (simp add: seek_state_def)

text \<open>
  Claim C3. Every call of \<open>moveAxisToLimit\<close> issues some number \<open>j\<close> of step pulses, at most
  the cap \<open>maxSteps\<close> (1.2 times the travel of the axis), after the limit input and the
  emergency-stop input have read high at each of the first \<open>j\<close> evaluations of the loop condition.
  It returns true exactly when \<open>j\<close> is below the cap, and then the limit input read low at
  evaluation \<open>j\<close>; it returns false exactly when \<open>j\<close> is the cap. The only other outcome is the
  emergency stop, entered below the cap when that input reads low.
\<close>

theorem moveAxisToLimit_contract:
  "\<exists>j. int j \<le> maxSteps axisName \<and>
     (\<forall>i<j. digitalRead e limitPin (seek_state stepPin dirPin direction i s) = HIGH \<and>
            digitalRead e E_STOP_PIN (seek_state stepPin dirPin direction i s) = HIGH) \<and>
     (case moveAxisToLimit e stepPin dirPin limitPin direction axisName s of
        Return ok s' \<Rightarrow>
          trace s' = trace s @ [Write Y_ENABLE_PIN LOW, Write X_ENABLE_PIN LOW, Wait 10000,
                                 Write dirPin direction, Wait 50000]
                       @ pulse_train stepPin moveAxisToLimit_delay 0 j \<and>
          ok = (int j < maxSteps axisName) \<and>
          (ok \<longrightarrow> digitalRead e limitPin (seek_state stepPin dirPin direction j s) = LOW)
      | Halt s' \<Rightarrow>
          trace s' = trace s @ [Write Y_ENABLE_PIN LOW, Write X_ENABLE_PIN LOW, Wait 10000,
                                 Write dirPin direction, Wait 50000]
                       @ pulse_train stepPin moveAxisToLimit_delay 0 j
                       @ [Write Y_ENABLE_PIN HIGH, Write X_ENABLE_PIN HIGH, SetState STATE_STOPPED] \<and>
          int j < maxSteps axisName \<and>
          digitalRead e E_STOP_PIN (seek_state stepPin dirPin direction j s) = LOW
      | Unfinished s' \<Rightarrow> False)"
proof -
  from moveAxisToLimit_run[of axisName e limitPin stepPin dirPin direction s]
  obtain j where j: "int j \<le> maxSteps axisName"
    "\<forall>i<j. digitalRead e limitPin (seek_state stepPin dirPin direction i s) = HIGH
            \<and> digitalRead e E_STOP_PIN (seek_state stepPin dirPin direction i s) = HIGH"
    "(let sj = seek_state stepPin dirPin direction j s in
        if digitalRead e limitPin sj = HIGH \<and> int j < maxSteps axisName
        then digitalRead e E_STOP_PIN sj = LOW \<and>
             moveAxisToLimit e stepPin dirPin limitPin direction axisName s = Halt (stopped sj)
        else if int j \<ge> maxSteps axisName
        then moveAxisToLimit e stepPin dirPin limitPin direction axisName s = Return False sj
        else moveAxisToLimit e stepPin dirPin limitPin direction axisName s
               = Return True (sj\<lparr>lastMotorActivity := millis sj\<rparr>))"
    by blast
  show ?thesis
    apply (rule exI[of _ j])
    using j by (auto simp: Let_def split: if_splits)
qed

lemma moveAxisToLimit_loop_exit:
  "digitalRead e limitPin s = LOW \<Longrightarrow> stepCount < maxS \<Longrightarrow>
     moveAxisToLimit_loop e stepPin limitPin maxS stepCount s = Return True (s\<lparr>lastMotorActivity := millis s\<rparr>)"
  "maxS \<le> stepCount \<Longrightarrow> moveAxisToLimit_loop e stepPin limitPin maxS stepCount s = Return False s"
  "digitalRead e limitPin s = HIGH \<Longrightarrow> stepCount < maxS \<Longrightarrow> digitalRead e E_STOP_PIN s = LOW \<Longrightarrow>
     moveAxisToLimit_loop e stepPin limitPin maxS stepCount s = Halt (stopped s)"
  by (subst moveAxisToLimit_loop.simps, simp add: checkEStop_simps andThen_def)+

lemma moveAxisToLimit_reaches_limit:
  assumes "\<forall>i<j. digitalRead e limitPin (seek_state stepPin dirPin direction i s) = HIGH \<and>
                 digitalRead e E_STOP_PIN (seek_state stepPin dirPin direction i s) = HIGH"
    and "int j < maxSteps a"
    and "digitalRead e limitPin (seek_state stepPin dirPin direction j s) = LOW"
  shows "moveAxisToLimit e stepPin dirPin limitPin direction a s =
           Return True ((seek_state stepPin dirPin direction j s)
             \<lparr>lastMotorActivity := millis (seek_state stepPin dirPin direction j s)\<rparr>)"
  unfolding moveAxisToLimit_def
  using assms moveAxisToLimit_loop_unroll[of j e limitPin stepPin 0
      "delay 50 (digitalWrite dirPin direction (enableMotors s))" "maxSteps a"]
  by (simp add: seek_state_def moveAxisToLimit_loop_exit)

lemma moveAxisToLimit_hits_cap:
  assumes "\<forall>i<nat (maxSteps a). digitalRead e limitPin (seek_state stepPin dirPin direction i s) = HIGH \<and>
                 digitalRead e E_STOP_PIN (seek_state stepPin dirPin direction i s) = HIGH"
  shows "moveAxisToLimit e stepPin dirPin limitPin direction a s =
           Return False (seek_state stepPin dirPin direction (nat (maxSteps a)) s)"
proof -
  have "0 \<le> maxSteps a"
    by (simp add: maxSteps_value)
  then show ?thesis
    unfolding moveAxisToLimit_def
    using assms moveAxisToLimit_loop_unroll[of "nat (maxSteps a)" e limitPin stepPin 0
      "delay 50 (digitalWrite dirPin direction (enableMotors s))" "maxSteps a"]
    by (simp add: seek_state_def moveAxisToLimit_loop_exit)
qed

lemma moveAxisToLimit_stopped:
  assumes "\<forall>i<j. digitalRead e limitPin (seek_state stepPin dirPin direction i s) = HIGH \<and>
                 digitalRead e E_STOP_PIN (seek_state stepPin dirPin direction i s) = HIGH"
    and "int j < maxSteps a"
    and "digitalRead e limitPin (seek_state stepPin dirPin direction j s) = HIGH"
    and "digitalRead e E_STOP_PIN (seek_state stepPin dirPin direction j s) = LOW"
  shows "moveAxisToLimit e stepPin dirPin limitPin direction a s =
           Halt (stopped (seek_state stepPin dirPin direction j s))"
  unfolding moveAxisToLimit_def
  using assms moveAxisToLimit_loop_unroll[of j e limitPin stepPin 0
      "delay 50 (digitalWrite dirPin direction (enableMotors s))" "maxSteps a"]
  by (simp add: seek_state_def moveAxisToLimit_loop_exit)

lemma train_time_add:
  "train_time d k (i + m) = train_time d k i + train_time d (k + int i) m"
  by (induction i arbitrary: k) (simp_all add: add.assoc)

lemma train_time_mono: "i < j \<Longrightarrow> train_time d k i < train_time d k j"
proof (induction j arbitrary: i k)
  case 0
  then show ?case by simp
next
  case step: (Suc j)
  show ?case
  proof (cases i)
    case 0
    then show ?thesis by simp
  next
    case (Suc i')
    with step.prems have "i' < j" by simp
    from step.IH[OF this, of "k + 1"] show ?thesis
      by (simp add: Suc)
  qed
qed

lemma ramp_0: "ramp t 0 = START_SPEED_DELAY"
  by (simp add: ramp_def)

lemma sdiv_nonneg: "0 \<le> a \<Longrightarrow> 0 < b \<Longrightarrow> (a::int) sdiv b = a div b"
  by (simp add: signed_divide_int_def sgn_if)

lemma uint_ramp:
  assumes "0 \<le> k" "k \<le> ACCEL_STEPS" "target \<le> START_SPEED_DELAY"
  shows "uint (ramp target k) = 3000 - ((3000 - uint target) * k) div 200"
proof -
  have t: "uint target \<le> 3000"
    using assms(3) by (simp add: word_le_def START_SPEED_DELAY_def)
  have d: "uint (START_SPEED_DELAY - target) = 3000 - uint target"
    using assms(3) by (simp add: uint_minus_simple_alt START_SPEED_DELAY_def)
  have nn: "0 \<le> (3000 - uint target) * k"
    using t assms(1) by simp
  have le: "(3000 - uint target) * k \<le> 3000 * 200"
    using t assms(1,2) by (intro mult_mono) (simp_all add: ACCEL_STEPS_def)
  have q: "((3000 - uint target) * k) div 200 \<le> 3000"
    using le by simp
  have q0: "0 \<le> ((3000 - uint target) * k) div 200"
    using nn by simp
  have r: "ramp target k = word_of_int (3000 - ((3000 - uint target) * k) div 200)"
    unfolding ramp_def d using nn
    by (simp only: sdiv_nonneg ACCEL_STEPS_def START_SPEED_DELAY_def) simp
  have "uint (word_of_int (3000 - ((3000 - uint target) * k) div 200) :: 16 word)
          = 3000 - ((3000 - uint target) * k) div 200"
    using q q0 by (subst uint_word_of_int_eq) (simp add: take_bit_int_eq_self)
  then show ?thesis
    by (simp only: r)
qed

lemma uint_moveAxisToLimit_delay:
  "0 \<le> k \<Longrightarrow> uint (moveAxisToLimit_delay k) = (if k < 200 then 3000 - (1500 * k) div 200 else 1500)"
  by (simp add: moveAxisToLimit_delay_def uint_ramp ACCEL_STEPS_def NORMAL_SPEED_DELAY_def START_SPEED_DELAY_def)

lemma uint_homeAxis_delay:
  "0 \<le> k \<Longrightarrow> uint (homeAxis_delay k) = (if k < 200 then 3000 - (1000 * k) div 200 else 2000)"
  by (simp add: homeAxis_delay_def uint_ramp ACCEL_STEPS_def HOMING_SPEED_DELAY_def START_SPEED_DELAY_def)

lemma moveAxisToLimit_delay_mono:
  assumes "0 \<le> k"
  shows "moveAxisToLimit_delay (k + 1) \<le> moveAxisToLimit_delay k"
proof -
  have "(1500 * k) div 200 \<le> (1500 * (k + 1)) div 200"
    by (intro zdiv_mono1) simp_all
  moreover have "k < 200 \<Longrightarrow> (1500 * k) div 200 \<le> 1500"
    by simp
  ultimately show ?thesis
    using assms by (simp add: word_le_def uint_moveAxisToLimit_delay)
qed

lemma homeAxis_delay_mono:
  assumes "0 \<le> k"
  shows "homeAxis_delay (k + 1) \<le> homeAxis_delay k"
proof -
  have "(1000 * k) div 200 \<le> (1000 * (k + 1)) div 200"
    by (intro zdiv_mono1) simp_all
  moreover have "k < 200 \<Longrightarrow> (1000 * k) div 200 \<le> 1000"
    by simp
  ultimately show ?thesis
    using assms by (simp add: word_le_def uint_homeAxis_delay)
qed

lemma homeAxis_loop_run:
  "\<exists>j\<le>fuel.
     (\<forall>i<j. digitalRead e limitPin (pulsesFrom stepPin homeAxis_delay k i s) = HIGH
            \<and> digitalRead e E_STOP_PIN (pulsesFrom stepPin homeAxis_delay k i s) = HIGH) \<and>
     (let sj = pulsesFrom stepPin homeAxis_delay k j s in
        if j = fuel then homeAxis_loop fuel e stepPin limitPin k s = Unfinished sj
        else if digitalRead e limitPin sj = HIGH
        then digitalRead e E_STOP_PIN sj = LOW \<and>
             homeAxis_loop fuel e stepPin limitPin k s = Halt (stopped sj)
        else homeAxis_loop fuel e stepPin limitPin k s = Return True sj)"
proof (induction fuel arbitrary: k s)
  case 0
  show ?case by simp
next
  case (Suc fuel)
  let ?s1 = "stepPulse stepPin (homeAxis_delay k) s"
  show ?case
  proof (cases "digitalRead e limitPin s = HIGH \<and> digitalRead e E_STOP_PIN s = HIGH")
    case True
    from Suc.IH[of "k + 1" ?s1]
    obtain j where j: "j \<le> fuel"
      "\<forall>i<j. digitalRead e limitPin (pulsesFrom stepPin homeAxis_delay (k + 1) i ?s1) = HIGH
            \<and> digitalRead e E_STOP_PIN (pulsesFrom stepPin homeAxis_delay (k + 1) i ?s1) = HIGH"
      "(let sj = pulsesFrom stepPin homeAxis_delay (k + 1) j ?s1 in
        if j = fuel then homeAxis_loop fuel e stepPin limitPin (k + 1) ?s1 = Unfinished sj
        else if digitalRead e limitPin sj = HIGH
        then digitalRead e E_STOP_PIN sj = LOW \<and>
             homeAxis_loop fuel e stepPin limitPin (k + 1) ?s1 = Halt (stopped sj)
        else homeAxis_loop fuel e stepPin limitPin (k + 1) ?s1 = Return True sj)"
      by blast
    have unfold: "homeAxis_loop (Suc fuel) e stepPin limitPin k s =
        homeAxis_loop fuel e stepPin limitPin (k + 1) ?s1"
      using True by (simp add: checkEStop_simps andThen_def)
    have all: "\<forall>i<Suc j. digitalRead e limitPin (pulsesFrom stepPin homeAxis_delay k i s) = HIGH
            \<and> digitalRead e E_STOP_PIN (pulsesFrom stepPin homeAxis_delay k i s) = HIGH"
    proof (intro allI impI)
      fix i assume "i < Suc j"
      then show "digitalRead e limitPin (pulsesFrom stepPin homeAxis_delay k i s) = HIGH
            \<and> digitalRead e E_STOP_PIN (pulsesFrom stepPin homeAxis_delay k i s) = HIGH"
        using True j(2) by (cases i) auto
    qed
    show ?thesis
      apply (rule exI[of _ "Suc j"])
      using j(1) j(3) all unfolding unfold Let_def
      by (auto split: if_splits)
  next
    case False
    show ?thesis
      apply (rule exI[of _ 0])
      using False by (auto simp: checkEStop_simps andThen_def)
  qed
qed

lemma unat_moveAxisToLimit_delay:
  "0 \<le> k \<Longrightarrow> unat (moveAxisToLimit_delay k) = nat (if k < 200 then 3000 - (1500 * k) div 200 else 1500)"
  by (simp only: unat_eq_nat_uint uint_moveAxisToLimit_delay)

lemma unat_homeAxis_delay:
  "0 \<le> k \<Longrightarrow> unat (homeAxis_delay k) = nat (if k < 200 then 3000 - (1000 * k) div 200 else 2000)"
  by (simp only: unat_eq_nat_uint uint_homeAxis_delay)

lemma limit_after_simps [simp]:
  "digitalRead (limit_after T p) q s = (if q = p \<and> T \<le> clock s then LOW else HIGH)"
  by (simp add: digitalRead_def limit_after_def)

lemma power_on_fields [simp]:
  "trace power_on = []" "clock power_on = 0" "currentState power_on = STATE_INIT"
  "isHomed power_on = False" "motorsEnabled power_on = False"
  by (simp_all add: power_on_def)

theorem moveAxisToLimit_contract_witness:
  "\<exists>s'. moveAxisToLimit (limit_after 64000 X_LIMIT_PIN) X_STEP_PIN X_DIR_PIN X_LIMIT_PIN DIR_X_IN CHR ''X'' power_on
          = Return True s' \<and>
        trace s' = [Write 8 LOW, Write 8 LOW, Wait 10000, Write 5 HIGH, Wait 50000,
                    Write 2 HIGH, Wait 50, Write 2 LOW, Wait 3000,
                    Write 2 HIGH, Wait 50, Write 2 LOW, Wait 2993]"
proof -
  have "moveAxisToLimit (limit_after 64000 X_LIMIT_PIN) X_STEP_PIN X_DIR_PIN X_LIMIT_PIN DIR_X_IN CHR ''X'' power_on
      = Return True ((seek_state X_STEP_PIN X_DIR_PIN DIR_X_IN (Suc (Suc 0)) power_on)
             \<lparr>lastMotorActivity := millis (seek_state X_STEP_PIN X_DIR_PIN DIR_X_IN (Suc (Suc 0)) power_on)\<rparr>)"
    by (rule moveAxisToLimit_reaches_limit)
       (simp_all add: less_Suc_eq maxSteps_value unat_moveAxisToLimit_delay pin_defs)
  then show ?thesis
    using moveAxisToLimit_contract[of "CHR ''X''" "limit_after 64000 X_LIMIT_PIN" X_LIMIT_PIN
        X_STEP_PIN X_DIR_PIN DIR_X_IN power_on]
    by (simp add: unat_moveAxisToLimit_delay pin_defs DIR_X_IN_def)
qed

text \<open>
  Claim C9. When the loop of \<open>moveAxisToLimit\<close> runs for the full cap (the limit input and the
  emergency-stop input read high at every evaluation of the loop condition before the cap), the
  call returns false in the state reached after the last step, whatever the limit input reads
  there. A call that returns true has issued a number of steps strictly below the cap.
\<close>

theorem cap_reached_is_failure:
  "((\<forall>i < nat (maxSteps axisName).
        digitalRead e limitPin (seek_state stepPin dirPin direction i s) = HIGH \<and>
        digitalRead e E_STOP_PIN (seek_state stepPin dirPin direction i s) = HIGH) \<longrightarrow>
      moveAxisToLimit e stepPin dirPin limitPin direction axisName s =
        Return False (seek_state stepPin dirPin direction (nat (maxSteps axisName)) s)) \<and>
   (\<forall>s'. moveAxisToLimit e stepPin dirPin limitPin direction axisName s = Return True s' \<longrightarrow>
      (\<exists>j. int j < maxSteps axisName \<and>
           trace s' = trace s @ [Write Y_ENABLE_PIN LOW, Write X_ENABLE_PIN LOW, Wait 10000,
                                  Write dirPin direction, Wait 50000]
                        @ pulse_train stepPin moveAxisToLimit_delay 0 j))"
proof (intro conjI impI allI)
  assume "\<forall>i < nat (maxSteps axisName).
        digitalRead e limitPin (seek_state stepPin dirPin direction i s) = HIGH \<and>
        digitalRead e E_STOP_PIN (seek_state stepPin dirPin direction i s) = HIGH"
  then show "moveAxisToLimit e stepPin dirPin limitPin direction axisName s =
        Return False (seek_state stepPin dirPin direction (nat (maxSteps axisName)) s)"
    by (rule moveAxisToLimit_hits_cap)
next
  fix s'
  assume ok: "moveAxisToLimit e stepPin dirPin limitPin direction axisName s = Return True s'"
  from moveAxisToLimit_run[of axisName e limitPin stepPin dirPin direction s]
  obtain j where j: "int j \<le> maxSteps axisName"
    "(let sj = seek_state stepPin dirPin direction j s in
        if digitalRead e limitPin sj = HIGH \<and> int j < maxSteps axisName
        then digitalRead e E_STOP_PIN sj = LOW \<and>
             moveAxisToLimit e stepPin dirPin limitPin direction axisName s = Halt (stopped sj)
        else if int j \<ge> maxSteps axisName
        then moveAxisToLimit e stepPin dirPin limitPin direction axisName s = Return False sj
        else moveAxisToLimit e stepPin dirPin limitPin direction axisName s
               = Return True (sj\<lparr>lastMotorActivity := millis sj\<rparr>))"
    by blast
  show "\<exists>j. int j < maxSteps axisName \<and>
           trace s' = trace s @ [Write Y_ENABLE_PIN LOW, Write X_ENABLE_PIN LOW, Wait 10000,
                                  Write dirPin direction, Wait 50000]
                        @ pulse_train stepPin moveAxisToLimit_delay 0 j"
    apply (rule exI[of _ j])
    using j ok by (auto simp: Let_def split: if_splits)
qed

theorem cap_reached_is_failure_witness:
  "moveAxisToLimit (limit_after (60000 + train_time moveAxisToLimit_delay 0 4128) Y_LIMIT_PIN)
       Y_STEP_PIN Y_DIR_PIN Y_LIMIT_PIN DIR_Y_DOWN CHR ''Y'' power_on
     = Return False (seek_state Y_STEP_PIN Y_DIR_PIN DIR_Y_DOWN 4128 power_on) \<and>
   digitalRead (limit_after (60000 + train_time moveAxisToLimit_delay 0 4128) Y_LIMIT_PIN) Y_LIMIT_PIN
       (seek_state Y_STEP_PIN Y_DIR_PIN DIR_Y_DOWN 4128 power_on) = LOW"
proof -
  let ?e = "limit_after (60000 + train_time moveAxisToLimit_delay 0 4128) Y_LIMIT_PIN"
  have h: "\<forall>i < nat (maxSteps CHR ''Y'').
        digitalRead ?e Y_LIMIT_PIN (seek_state Y_STEP_PIN Y_DIR_PIN DIR_Y_DOWN i power_on) = HIGH \<and>
        digitalRead ?e E_STOP_PIN (seek_state Y_STEP_PIN Y_DIR_PIN DIR_Y_DOWN i power_on) = HIGH"
  proof (intro allI impI)
    fix i assume "i < nat (maxSteps CHR ''Y'')"
    then have "i < 4128"
      by (simp add: maxSteps_value)
    from train_time_mono[OF this, of moveAxisToLimit_delay 0]
    show "digitalRead ?e Y_LIMIT_PIN (seek_state Y_STEP_PIN Y_DIR_PIN DIR_Y_DOWN i power_on) = HIGH \<and>
        digitalRead ?e E_STOP_PIN (seek_state Y_STEP_PIN Y_DIR_PIN DIR_Y_DOWN i power_on) = HIGH"
      by (simp add: pin_defs)
  qed
  from cap_reached_is_failure[of "CHR ''Y''" ?e Y_LIMIT_PIN Y_STEP_PIN Y_DIR_PIN DIR_Y_DOWN power_on] h
  show ?thesis
    by (simp add: maxSteps_value)
qed

lemma moveAxisToLimit_trace:
  "\<exists>j tl. trace (state_of (moveAxisToLimit e stepPin dirPin limitPin direction axisName s)) =
            trace s @ [Write Y_ENABLE_PIN LOW, Write X_ENABLE_PIN LOW, Wait 10000,
                       Write dirPin direction, Wait 50000]
              @ pulse_train stepPin moveAxisToLimit_delay 0 j @ tl \<and>
          int j \<le> maxSteps axisName \<and>
          (tl = [] \<or> tl = [Write Y_ENABLE_PIN HIGH, Write X_ENABLE_PIN HIGH, SetState STATE_STOPPED])"
proof -
  from moveAxisToLimit_run[of axisName e limitPin stepPin dirPin direction s]
  obtain j where j: "int j \<le> maxSteps axisName"
    "(let sj = seek_state stepPin dirPin direction j s in
        if digitalRead e limitPin sj = HIGH \<and> int j < maxSteps axisName
        then digitalRead e E_STOP_PIN sj = LOW \<and>
             moveAxisToLimit e stepPin dirPin limitPin direction axisName s = Halt (stopped sj)
        else if int j \<ge> maxSteps axisName
        then moveAxisToLimit e stepPin dirPin limitPin direction axisName s = Return False sj
        else moveAxisToLimit e stepPin dirPin limitPin direction axisName s
               = Return True (sj\<lparr>lastMotorActivity := millis sj\<rparr>))"
    by blast
  show ?thesis
    apply (rule exI[of _ j])
    using j by (auto simp: Let_def split: if_splits)
qed

lemma homeAxis_trace:
  "\<exists>j hd tl. trace (state_of (homeAxis fuel e stepPin dirPin limitPin direction axisName s)) =
            trace s @ hd @ pulse_train stepPin homeAxis_delay 0 j @ tl \<and>
          (hd = [] \<or> hd = [Write dirPin direction, Wait 50000]) \<and>
          (tl = [] \<or> tl = [Write Y_ENABLE_PIN HIGH, Write X_ENABLE_PIN HIGH, SetState STATE_STOPPED])"
proof (cases "digitalRead e limitPin s = LOW")
  case True
  then have "homeAxis fuel e stepPin dirPin limitPin direction axisName s = Return True s"
    by (simp add: homeAxis_def)
  then show ?thesis
    by (intro exI[of _ 0] exI[of _ "[]"]) simp
next
  case False
  let ?s0 = "delay 50 (digitalWrite dirPin direction s)"
  have t0: "trace ?s0 = trace s @ [Write dirPin direction, Wait 50000]"
    by (simp add: delay_def delayMicroseconds_def digitalWrite_def)
  from homeAxis_loop_run[of fuel e limitPin stepPin 0 ?s0]
  obtain j where j:
    "(let sj = pulsesFrom stepPin homeAxis_delay 0 j ?s0 in
        if j = fuel then homeAxis_loop fuel e stepPin limitPin 0 ?s0 = Unfinished sj
        else if digitalRead e limitPin sj = HIGH
        then digitalRead e E_STOP_PIN sj = LOW \<and>
             homeAxis_loop fuel e stepPin limitPin 0 ?s0 = Halt (stopped sj)
        else homeAxis_loop fuel e stepPin limitPin 0 ?s0 = Return True sj)"
    by blast
  have h: "homeAxis fuel e stepPin dirPin limitPin direction axisName s =
      homeAxis_loop fuel e stepPin limitPin 0 ?s0"
    using False by (simp add: homeAxis_def)
  show ?thesis
    unfolding h
    apply (rule exI[of _ j])
    apply (rule exI[of _ "[Write dirPin direction, Wait 50000]"])
    using j t0 by (auto simp: Let_def split: if_splits)
qed

text \<open>
  Claim C7. The steps of \<open>moveAxisToLimit\<close> and of \<open>homeAxis\<close> are pulse number \<open>k\<close> followed
  by the delay \<open>moveAxisToLimit_delay k\<close>, respectively \<open>homeAxis_delay k\<close>, for \<open>k\<close> from 0 on.
  That delay is the ramp-up value below \<open>ACCEL_STEPS\<close> and the target delay from there on, and
  it never grows from one step to the next.
\<close>

theorem limit_seek_never_ramps_down:
  "(\<exists>j tl. trace (state_of (moveAxisToLimit e stepPin dirPin limitPin direction axisName s)) =
            trace s @ [Write Y_ENABLE_PIN LOW, Write X_ENABLE_PIN LOW, Wait 10000,
                       Write dirPin direction, Wait 50000]
              @ pulse_train stepPin moveAxisToLimit_delay 0 j @ tl \<and>
          (tl = [] \<or> tl = [Write Y_ENABLE_PIN HIGH, Write X_ENABLE_PIN HIGH, SetState STATE_STOPPED])) \<and>
   (\<exists>j hd tl. trace (state_of (homeAxis fuel e stepPin dirPin limitPin direction axisName s)) =
            trace s @ hd @ pulse_train stepPin homeAxis_delay 0 j @ tl \<and>
          (hd = [] \<or> hd = [Write dirPin direction, Wait 50000]) \<and>
          (tl = [] \<or> tl = [Write Y_ENABLE_PIN HIGH, Write X_ENABLE_PIN HIGH, SetState STATE_STOPPED])) \<and>
   (\<forall>k\<ge>0. uint (moveAxisToLimit_delay k) = (if k < ACCEL_STEPS then 3000 - (1500 * k) div 200 else 1500) \<and>
          moveAxisToLimit_delay (k + 1) \<le> moveAxisToLimit_delay k) \<and>
   (\<forall>k\<ge>0. uint (homeAxis_delay k) = (if k < ACCEL_STEPS then 3000 - (1000 * k) div 200 else 2000) \<and>
          homeAxis_delay (k + 1) \<le> homeAxis_delay k)"
proof (intro conjI allI impI)
  show "\<exists>j tl. trace (state_of (moveAxisToLimit e stepPin dirPin limitPin direction axisName s)) =
            trace s @ [Write Y_ENABLE_PIN LOW, Write X_ENABLE_PIN LOW, Wait 10000,
                       Write dirPin direction, Wait 50000]
              @ pulse_train stepPin moveAxisToLimit_delay 0 j @ tl \<and>
          (tl = [] \<or> tl = [Write Y_ENABLE_PIN HIGH, Write X_ENABLE_PIN HIGH, SetState STATE_STOPPED])"
    using moveAxisToLimit_trace[of e stepPin dirPin limitPin direction axisName s] by blast
  show "\<exists>j hd tl. trace (state_of (homeAxis fuel e stepPin dirPin limitPin direction axisName s)) =
            trace s @ hd @ pulse_train stepPin homeAxis_delay 0 j @ tl \<and>
          (hd = [] \<or> hd = [Write dirPin direction, Wait 50000]) \<and>
          (tl = [] \<or> tl = [Write Y_ENABLE_PIN HIGH, Write X_ENABLE_PIN HIGH, SetState STATE_STOPPED])"
    by (rule homeAxis_trace)
next
  fix k :: int assume "0 \<le> k"
  then show "uint (moveAxisToLimit_delay k) = (if k < ACCEL_STEPS then 3000 - (1500 * k) div 200 else 1500)"
    by (simp add: uint_moveAxisToLimit_delay ACCEL_STEPS_def)
next
  fix k :: int assume "0 \<le> k"
  then show "moveAxisToLimit_delay (k + 1) \<le> moveAxisToLimit_delay k"
    by (rule moveAxisToLimit_delay_mono)
next
  fix k :: int assume "0 \<le> k"
  then show "uint (homeAxis_delay k) = (if k < ACCEL_STEPS then 3000 - (1000 * k) div 200 else 2000)"
    by (simp add: uint_homeAxis_delay ACCEL_STEPS_def)
next
  fix k :: int assume "0 \<le> k"
  then show "homeAxis_delay (k + 1) \<le> homeAxis_delay k"
    by (rule homeAxis_delay_mono)
qed

theorem limit_seek_never_ramps_down_witness:
  "uint (moveAxisToLimit_delay 199) = 1508 \<and> moveAxisToLimit_delay 200 \<le> moveAxisToLimit_delay 199 \<and>
   uint (moveAxisToLimit_delay 5000) = 1500 \<and>
   uint (homeAxis_delay 199) = 2005 \<and> homeAxis_delay 200 \<le> homeAxis_delay 199 \<and>
   uint (homeAxis_delay 5000) = 2000"
proof -
  note t = limit_seek_never_ramps_down[where e = at_limits and stepPin = X_STEP_PIN
      and dirPin = X_DIR_PIN and limitPin = X_LIMIT_PIN and direction = DIR_X_IN
      and axisName = "CHR ''X''" and s = power_on and fuel = 0]
  note m = t[THEN conjunct2, THEN conjunct2, THEN conjunct1, rule_format]
  note h = t[THEN conjunct2, THEN conjunct2, THEN conjunct2, rule_format]
  from m[of 199] m[of 5000] h[of 199] h[of 5000] show ?thesis
    by (simp add: ACCEL_STEPS_def)
qed

section \<open>Fixed-count moves\<close>

lemma moveAxis_loop_run:
  "\<exists>j. i + int j \<le> max i steps \<and>
     (\<forall>m<j. digitalRead e E_STOP_PIN (pulsesFrom stepPin (moveAxis_delay steps) i m s) = HIGH) \<and>
     (let sj = pulsesFrom stepPin (moveAxis_delay steps) i j s in
        if i + int j < steps
        then digitalRead e E_STOP_PIN sj = LOW \<and> moveAxis_loop e stepPin steps i s = Halt (stopped sj)
        else moveAxis_loop e stepPin steps i s = Return () (sj\<lparr>lastMotorActivity := millis sj\<rparr>))"
proof (induction e stepPin steps i s rule: moveAxis_loop.induct)
  case (1 e stepPin steps i s)
  let ?s1 = "stepPulse stepPin (moveAxis_delay steps i) s"
  show ?case
  proof (cases "i < steps \<and> digitalRead e E_STOP_PIN s = HIGH")
    case True
    then have ce: "checkEStop e s = Return False s"
      by (simp add: checkEStop_simps)
    from "1.IH"[OF _ ce] True
    obtain j where j:
      "i + 1 + int j \<le> max (i + 1) steps"
      "\<forall>m<j. digitalRead e E_STOP_PIN (pulsesFrom stepPin (moveAxis_delay steps) (i + 1) m ?s1) = HIGH"
      "(let sj = pulsesFrom stepPin (moveAxis_delay steps) (i + 1) j ?s1 in
        if i + 1 + int j < steps
        then digitalRead e E_STOP_PIN sj = LOW \<and> moveAxis_loop e stepPin steps (i + 1) ?s1 = Halt (stopped sj)
        else moveAxis_loop e stepPin steps (i + 1) ?s1 = Return () (sj\<lparr>lastMotorActivity := millis sj\<rparr>))"
      by auto
    have unfold: "moveAxis_loop e stepPin steps i s = moveAxis_loop e stepPin steps (i + 1) ?s1"
      using True ce by (subst moveAxis_loop.simps) (simp add: andThen_def)
    have all: "\<forall>m<Suc j. digitalRead e E_STOP_PIN (pulsesFrom stepPin (moveAxis_delay steps) i m s) = HIGH"
    proof (intro allI impI)
      fix m assume "m < Suc j"
      then show "digitalRead e E_STOP_PIN (pulsesFrom stepPin (moveAxis_delay steps) i m s) = HIGH"
        using True j(2) by (cases m) auto
    qed
    show ?thesis
      apply (rule exI[of _ "Suc j"])
      using j(1) j(3) True all unfolding unfold Let_def
      by (auto simp: add.assoc split: if_splits)
  next
    case False
    show ?thesis
      apply (rule exI[of _ 0])
      using False
      by (subst (1 2) moveAxis_loop.simps) (auto simp: checkEStop_simps andThen_def)
  qed
qed

lemma moveAxis_run:
  "\<exists>j. int j \<le> max 0 steps \<and>
     (\<forall>m<j. digitalRead e E_STOP_PIN (move_state stepPin dirPin direction steps m s) = HIGH) \<and>
     (let sj = move_state stepPin dirPin direction steps j s in
        if int j < steps
        then digitalRead e E_STOP_PIN sj = LOW \<and>
             moveAxis e stepPin dirPin direction steps s = Halt (stopped sj)
        else moveAxis e stepPin dirPin direction steps s = Return () (sj\<lparr>lastMotorActivity := millis sj\<rparr>))"
  using moveAxis_loop_run[of 0 steps e stepPin "delay 50 (digitalWrite dirPin direction (enableMotors s))"]
  unfolding moveAxis_def move_state_def add_0 .

lemma doSteps_loop_run:
  "doSteps_loop stepPin numSteps targetDelay i s =
     Return () ((pulsesFrom stepPin (doSteps_delay numSteps targetDelay) i (nat (numSteps - i)) s)
       \<lparr>lastMotorActivity := millis (pulsesFrom stepPin (doSteps_delay numSteps targetDelay) i (nat (numSteps - i)) s)\<rparr>)"
proof (induction stepPin numSteps targetDelay i s rule: doSteps_loop.induct)
  case (1 stepPin numSteps targetDelay i s)
  show ?case
  proof (cases "i < numSteps")
    case True
    then have n: "nat (numSteps - i) = Suc (nat (numSteps - (i + 1)))"
      by simp
    show ?thesis
      using True "1.IH"[OF True]
      by (subst doSteps_loop.simps) (simp only: n pulsesFrom.simps if_True)
  next
    case False
    then show ?thesis
      by (subst doSteps_loop.simps) simp
  qed
qed

lemma enableMotors_fields [simp]:
  "trace (enableMotors s) = trace s @ [Write Y_ENABLE_PIN LOW, Write X_ENABLE_PIN LOW, Wait 10000]"
  "clock (enableMotors s) = clock s + 10000"
  "currentState (enableMotors s) = currentState s"
  "isHomed (enableMotors s) = isHomed s"
  "motorsEnabled (enableMotors s) = True"
  "lastMotorActivity (enableMotors s) = millis s"
  "rx_taken (enableMotors s) = rx_taken s"
  "pin_out (enableMotors s) = (pin_out s)(Y_ENABLE_PIN := LOW, X_ENABLE_PIN := LOW)"
  by (simp_all add: enableMotors_def delay_def delayMicroseconds_def digitalWrite_def millis_def Let_def)

lemma doSteps_run:
  "doSteps stepPin numSteps targetDelay s =
     Return () ((pulsesFrom stepPin (doSteps_delay numSteps targetDelay) 0 (nat numSteps) (enableMotors s))
       \<lparr>lastMotorActivity := millis (pulsesFrom stepPin (doSteps_delay numSteps targetDelay) 0 (nat numSteps) (enableMotors s))\<rparr>)"
  using doSteps_loop_run[of stepPin numSteps targetDelay 0 "enableMotors s"]
  by (simp add: doSteps_def)

lemma uint_doSteps_delay:
  assumes "targetDelay \<le> START_SPEED_DELAY" "0 \<le> i" "i \<le> n"
  shows "uint (doSteps_delay n targetDelay i) =
     (if i < ACCEL_STEPS then 3000 - ((3000 - uint targetDelay) * i) div 200
      else if i > n - ACCEL_STEPS then 3000 - ((3000 - uint targetDelay) * (n - i)) div 200
      else uint targetDelay)"
  using assms by (simp add: doSteps_delay_def uint_ramp ACCEL_STEPS_def)

lemma ramp_value_mono:
  assumes "0 \<le> (a::int)" "j \<le> k"
  shows "3000 - (a * k) div 200 \<le> 3000 - (a * j) div 200"
proof -
  have "a * j \<le> a * k"
    using assms by (intro mult_left_mono)
  then have "(a * j) div 200 \<le> (a * k) div 200"
    by (intro zdiv_mono1) simp_all
  then show ?thesis by simp
qed

lemma ramp_value_ge_target:
  assumes "0 \<le> (a::int)" "0 \<le> k" "k \<le> 200"
  shows "3000 - a \<le> 3000 - (a * k) div 200"
proof -
  have "a * k \<le> a * 200"
    using assms by (intro mult_left_mono)
  then have "(a * k) div 200 \<le> (a * 200) div 200"
    by (intro zdiv_mono1) simp_all
  then show ?thesis by simp
qed

lemma doSteps_delay_head:
  assumes t: "targetDelay \<le> START_SPEED_DELAY" and n: "2 * ACCEL_STEPS \<le> n"
    and i: "0 \<le> i" "i < ACCEL_STEPS"
  shows "doSteps_delay n targetDelay (i + 1) \<le> doSteps_delay n targetDelay i"
proof -
  have a: "0 \<le> 3000 - uint targetDelay"
    using t by (simp add: word_le_def START_SPEED_DELAY_def)
  have "uint (doSteps_delay n targetDelay (i + 1)) \<le> uint (doSteps_delay n targetDelay i)"
    using t n i ramp_value_mono[OF a, of i "i + 1"] ramp_value_ge_target[OF a, of i]
    by (simp add: uint_doSteps_delay ACCEL_STEPS_def)
  then show ?thesis
    by (simp add: word_le_def)
qed

lemma doSteps_delay_cruise:
  assumes "ACCEL_STEPS \<le> i" "i \<le> n - ACCEL_STEPS"
  shows "doSteps_delay n targetDelay i = targetDelay"
  using assms by (simp add: doSteps_delay_def)

lemma doSteps_delay_tail:
  assumes t: "targetDelay \<le> START_SPEED_DELAY" and n: "2 * ACCEL_STEPS \<le> n"
    and i: "n - ACCEL_STEPS \<le> i" "i + 1 < n"
  shows "doSteps_delay n targetDelay i \<le> doSteps_delay n targetDelay (i + 1)"
proof -
  have a: "0 \<le> 3000 - uint targetDelay"
    using t by (simp add: word_le_def START_SPEED_DELAY_def)
  have "uint (doSteps_delay n targetDelay i) \<le> uint (doSteps_delay n targetDelay (i + 1))"
    using t n i ramp_value_mono[OF a, of "n - (i + 1)" "n - i"] ramp_value_ge_target[OF a, of "n - (i + 1)"]
    by (simp add: uint_doSteps_delay ACCEL_STEPS_def)
  then show ?thesis
    by (simp add: word_le_def)
qed

lemma moveAxis_delay_eq: "moveAxis_delay n = doSteps_delay n NORMAL_SPEED_DELAY"
  by (rule ext) (simp add: moveAxis_delay_def doSteps_delay_def)

lemma moveAxis_trace:
  "\<exists>j tl. trace (state_of (moveAxis e stepPin dirPin direction steps s)) =
            trace s @ [Write Y_ENABLE_PIN LOW, Write X_ENABLE_PIN LOW, Wait 10000,
                       Write dirPin direction, Wait 50000]
              @ pulse_train stepPin (moveAxis_delay steps) 0 j @ tl \<and>
          int j \<le> max 0 steps \<and>
          (tl = [] \<or> tl = [Write Y_ENABLE_PIN HIGH, Write X_ENABLE_PIN HIGH, SetState STATE_STOPPED])"
proof -
  from moveAxis_run[of steps e stepPin dirPin direction s]
  obtain j where j: "int j \<le> max 0 steps"
    "(let sj = move_state stepPin dirPin direction steps j s in
        if int j < steps
        then digitalRead e E_STOP_PIN sj = LOW \<and>
             moveAxis e stepPin dirPin direction steps s = Halt (stopped sj)
        else moveAxis e stepPin dirPin direction steps s = Return () (sj\<lparr>lastMotorActivity := millis sj\<rparr>))"
    by blast
  show ?thesis
    apply (rule exI[of _ j])
    using j by (auto simp: Let_def move_state_def split: if_splits)
qed

text \<open>
  Claim C4, amended. For a target delay not above the start delay, the delay of step \<open>i\<close> of a
  fixed-count move of \<open>n\<close> steps is the ramp-up value \<open>3000 - (3000 - T) * i div 200\<close> below
  \<open>ACCEL_STEPS\<close>, otherwise the ramp-down value \<open>3000 - (3000 - T) * (n - i) div 200\<close> when
  fewer than \<open>ACCEL_STEPS\<close> steps remain, otherwise the target delay. For moves of at least
  \<open>2 * ACCEL_STEPS\<close> steps the delay starts at the start delay, never grows over the first
  \<open>ACCEL_STEPS\<close> steps, is the target delay up to step \<open>n - ACCEL_STEPS\<close>, and never shrinks
  from there to the last step, whose delay is \<open>3000 - (3000 - T) div 200\<close>. These are the delays
  \<open>doSteps\<close> and \<open>moveAxis\<close> apply, step by step.
\<close>

theorem fixed_count_profile:
  "targetDelay \<le> START_SPEED_DELAY \<longrightarrow>
     (\<forall>i. 0 \<le> i \<and> i \<le> n \<longrightarrow>
        uint (doSteps_delay n targetDelay i) =
          (if i < ACCEL_STEPS then 3000 - ((3000 - uint targetDelay) * i) div 200
           else if i > n - ACCEL_STEPS then 3000 - ((3000 - uint targetDelay) * (n - i)) div 200
           else uint targetDelay)) \<and>
     (2 * ACCEL_STEPS \<le> n \<longrightarrow>
        (\<forall>i. 0 \<le> i \<and> i < ACCEL_STEPS \<longrightarrow>
           doSteps_delay n targetDelay (i + 1) \<le> doSteps_delay n targetDelay i) \<and>
        (\<forall>i. ACCEL_STEPS \<le> i \<and> i \<le> n - ACCEL_STEPS \<longrightarrow> doSteps_delay n targetDelay i = targetDelay) \<and>
        (\<forall>i. n - ACCEL_STEPS \<le> i \<and> i + 1 < n \<longrightarrow>
           doSteps_delay n targetDelay i \<le> doSteps_delay n targetDelay (i + 1)) \<and>
        doSteps_delay n targetDelay 0 = START_SPEED_DELAY \<and>
        uint (doSteps_delay n targetDelay (n - 1)) = 3000 - (3000 - uint targetDelay) div 200) \<and>
     moveAxis_delay n = doSteps_delay n NORMAL_SPEED_DELAY \<and>
     trace (state_of (doSteps stepPin n targetDelay s)) =
       trace s @ [Write Y_ENABLE_PIN LOW, Write X_ENABLE_PIN LOW, Wait 10000]
         @ pulse_train stepPin (doSteps_delay n targetDelay) 0 (nat n) \<and>
     (\<exists>j tl. trace (state_of (moveAxis e stepPin dirPin direction n s)) =
            trace s @ [Write Y_ENABLE_PIN LOW, Write X_ENABLE_PIN LOW, Wait 10000,
                       Write dirPin direction, Wait 50000]
              @ pulse_train stepPin (moveAxis_delay n) 0 j @ tl \<and>
          int j \<le> max 0 n \<and>
          (tl = [] \<or> tl = [Write Y_ENABLE_PIN HIGH, Write X_ENABLE_PIN HIGH, SetState STATE_STOPPED]))"
proof (intro impI conjI allI)
  assume t: "targetDelay \<le> START_SPEED_DELAY"
  show "moveAxis_delay n = doSteps_delay n NORMAL_SPEED_DELAY"
    by (rule moveAxis_delay_eq)
  show "trace (state_of (doSteps stepPin n targetDelay s)) =
       trace s @ [Write Y_ENABLE_PIN LOW, Write X_ENABLE_PIN LOW, Wait 10000]
         @ pulse_train stepPin (doSteps_delay n targetDelay) 0 (nat n)"
    by (simp add: doSteps_run)
  show "\<exists>j tl. trace (state_of (moveAxis e stepPin dirPin direction n s)) =
            trace s @ [Write Y_ENABLE_PIN LOW, Write X_ENABLE_PIN LOW, Wait 10000,
                       Write dirPin direction, Wait 50000]
              @ pulse_train stepPin (moveAxis_delay n) 0 j @ tl \<and>
          int j \<le> max 0 n \<and>
          (tl = [] \<or> tl = [Write Y_ENABLE_PIN HIGH, Write X_ENABLE_PIN HIGH, SetState STATE_STOPPED])"
    by (rule moveAxis_trace)
  {
    fix i assume "0 \<le> i \<and> i \<le> n"
    then show "uint (doSteps_delay n targetDelay i) =
          (if i < ACCEL_STEPS then 3000 - ((3000 - uint targetDelay) * i) div 200
           else if i > n - ACCEL_STEPS then 3000 - ((3000 - uint targetDelay) * (n - i)) div 200
           else uint targetDelay)"
      using t by (simp add: uint_doSteps_delay)
  }
  assume n: "2 * ACCEL_STEPS \<le> n"
  show "doSteps_delay n targetDelay 0 = START_SPEED_DELAY"
    by (simp add: doSteps_delay_def ACCEL_STEPS_def ramp_0)
  show "uint (doSteps_delay n targetDelay (n - 1)) = 3000 - (3000 - uint targetDelay) div 200"
    using t n by (simp add: uint_doSteps_delay ACCEL_STEPS_def)
  {
    fix i assume "0 \<le> i \<and> i < ACCEL_STEPS"
    then show "doSteps_delay n targetDelay (i + 1) \<le> doSteps_delay n targetDelay i"
      using t n by (simp add: doSteps_delay_head)
  }
  {
    fix i assume "ACCEL_STEPS \<le> i \<and> i \<le> n - ACCEL_STEPS"
    then show "doSteps_delay n targetDelay i = targetDelay"
      by (simp add: doSteps_delay_cruise)
  }
  {
    fix i assume "n - ACCEL_STEPS \<le> i \<and> i + 1 < n"
    then show "doSteps_delay n targetDelay i \<le> doSteps_delay n targetDelay (i + 1)"
      using t n by (simp add: doSteps_delay_tail)
  }
qed

theorem fixed_count_profile_witness:
  "uint (doSteps_delay 800 1500 0) = 3000 \<and> uint (doSteps_delay 800 1500 199) = 1508 \<and>
   doSteps_delay 800 1500 200 = 1500 \<and> doSteps_delay 800 1500 600 = 1500 \<and>
   uint (doSteps_delay 800 1500 601) = 1508 \<and> uint (doSteps_delay 800 1500 799) = 2993 \<and>
   doSteps_delay 800 1500 1 \<le> doSteps_delay 800 1500 0 \<and>
   doSteps_delay 800 1500 798 \<le> doSteps_delay 800 1500 799 \<and>
   moveAxis_delay 800 = doSteps_delay 800 NORMAL_SPEED_DELAY"
proof -
  have t: "(1500 :: 16 word) \<le> START_SPEED_DELAY"
    by (simp add: START_SPEED_DELAY_def)
  note p = fixed_count_profile[where targetDelay = 1500 and n = 800 and stepPin = X_STEP_PIN
      and s = power_on and e = at_limits and dirPin = X_DIR_PIN and direction = DIR_X_OUT,
      rule_format, OF t]
  note f = p[THEN conjunct1, rule_format]
  note g = p[THEN conjunct2, THEN conjunct1, rule_format]
  have n: "2 * ACCEL_STEPS \<le> 800"
    by (simp add: ACCEL_STEPS_def)
  from f[of 0] f[of 199] f[of 601] f[of 799]
    g[OF n, THEN conjunct1, rule_format, of 0]
    g[OF n, THEN conjunct2, THEN conjunct1, rule_format, of 200]
    g[OF n, THEN conjunct2, THEN conjunct1, rule_format, of 600]
    g[OF n, THEN conjunct2, THEN conjunct2, THEN conjunct1, rule_format, of 798]
    p[THEN conjunct2, THEN conjunct2, THEN conjunct1]
  show ?thesis
    by (simp add: ACCEL_STEPS_def)
qed

lemma uint_moveAxis_delay_100:
  "uint (doSteps_delay 100 1500 98) = 2265" "uint (doSteps_delay 100 1500 99) = 2258"
  by (simp_all add: uint_doSteps_delay START_SPEED_DELAY_def ACCEL_STEPS_def)

text \<open>
  Claim C4 as stated fails for short moves: in a move of 100 steps the ramp-up branch covers
  every step, so the delay still shrinks from step 98 to step 99, inside the last
  \<open>min (n div 2) ACCEL_STEPS\<close> steps.
\<close>

theorem short_move_never_ramps_down:
  "\<not> (\<forall>n targetDelay i.
        targetDelay \<le> START_SPEED_DELAY \<and> 0 < n \<and> n - min (n div 2) ACCEL_STEPS \<le> i \<and> i + 1 < n \<longrightarrow>
        doSteps_delay n targetDelay i \<le> doSteps_delay n targetDelay (i + 1))"
proof
  assume a: "\<forall>n targetDelay i.
        targetDelay \<le> START_SPEED_DELAY \<and> 0 < n \<and> n - min (n div 2) ACCEL_STEPS \<le> i \<and> i + 1 < n \<longrightarrow>
        doSteps_delay n targetDelay i \<le> doSteps_delay n targetDelay (i + 1)"
  have "doSteps_delay 100 1500 98 \<le> doSteps_delay 100 1500 (98 + 1)"
    by (rule a[rule_format]) (simp add: START_SPEED_DELAY_def ACCEL_STEPS_def)
  then show False
    by (simp add: word_le_def uint_moveAxis_delay_100)
qed

lemma estop_pressed_read [simp]:
  "digitalRead estop_pressed p s = (if p = E_STOP_PIN then LOW else HIGH)"
  by (simp add: digitalRead_def estop_pressed_def)

text \<open>
  Claim C1 fails for \<open>doSteps\<close>: its loop never polls the emergency stop. With that input low at
  every instant, test-mode command \<open>1\<close> issues all 800 steps and returns, where \<open>moveAxis\<close>
  for the same move stops before the first step.
\<close>

theorem doSteps_ignores_emergency_stop:
  "testMode_command fuel estop_pressed CHR ''1'' s =
     Return () ((pulsesFrom X_STEP_PIN (doSteps_delay 800 TEST_SPEED_DELAY) 0 800
                   (enableMotors (delay 50 (digitalWrite X_DIR_PIN DIR_X_OUT s))))
       \<lparr>lastMotorActivity := millis (pulsesFrom X_STEP_PIN (doSteps_delay 800 TEST_SPEED_DELAY) 0 800
                   (enableMotors (delay 50 (digitalWrite X_DIR_PIN DIR_X_OUT s))))\<rparr>) \<and>
   trace (state_of (testMode_command fuel estop_pressed CHR ''1'' s)) =
     trace s @ [Write X_DIR_PIN LOW, Wait 50000, Write Y_ENABLE_PIN LOW, Write X_ENABLE_PIN LOW, Wait 10000]
       @ pulse_train X_STEP_PIN (doSteps_delay 800 TEST_SPEED_DELAY) 0 800 \<and>
   moveAxis estop_pressed X_STEP_PIN X_DIR_PIN DIR_X_OUT 800 s =
     Halt (stopped (delay 50 (digitalWrite X_DIR_PIN DIR_X_OUT (enableMotors s))))"
proof (intro conjI)
  show c: "testMode_command fuel estop_pressed CHR ''1'' s =
     Return () ((pulsesFrom X_STEP_PIN (doSteps_delay 800 TEST_SPEED_DELAY) 0 800
                   (enableMotors (delay 50 (digitalWrite X_DIR_PIN DIR_X_OUT s))))
       \<lparr>lastMotorActivity := millis (pulsesFrom X_STEP_PIN (doSteps_delay 800 TEST_SPEED_DELAY) 0 800
                   (enableMotors (delay 50 (digitalWrite X_DIR_PIN DIR_X_OUT s))))\<rparr>)"
    by (simp add: testMode_command_def doSteps_run STEPS_PER_MM_def)
  show "trace (state_of (testMode_command fuel estop_pressed CHR ''1'' s)) =
     trace s @ [Write X_DIR_PIN LOW, Wait 50000, Write Y_ENABLE_PIN LOW, Write X_ENABLE_PIN LOW, Wait 10000]
       @ pulse_train X_STEP_PIN (doSteps_delay 800 TEST_SPEED_DELAY) 0 800"
    unfolding c by (simp add: delay_def delayMicroseconds_def digitalWrite_def DIR_X_OUT_def)
  show "moveAxis estop_pressed X_STEP_PIN X_DIR_PIN DIR_X_OUT 800 s =
     Halt (stopped (delay 50 (digitalWrite X_DIR_PIN DIR_X_OUT (enableMotors s))))"
    unfolding moveAxis_def
    by (subst moveAxis_loop.simps) (simp add: checkEStop_simps andThen_def)
qed

section \<open>Homing\<close>

lemma nothing_closes_read [simp]: "digitalRead nothing_closes p s = HIGH"
  by (simp add: digitalRead_def nothing_closes_def)

lemma homeAxis_loop_stuck:
  "homeAxis_loop fuel nothing_closes stepPin limitPin k s =
     Unfinished (pulsesFrom stepPin homeAxis_delay k fuel s)"
  by (induction fuel arbitrary: k s) (simp_all add: checkEStop_simps andThen_def)

lemma home_state_trace [simp]:
  "trace (home_state stepPin dirPin direction j s) =
     trace s @ [Write dirPin direction, Wait 50000] @ pulse_train stepPin homeAxis_delay 0 j"
  by (simp add: home_state_def delay_def delayMicroseconds_def digitalWrite_def)

text \<open>
  Claim C2 fails on the code: \<open>homeAxis\<close> has no step cap. On an input where the limit switch
  never closes it keeps stepping for as long as it is observed: after \<open>fuel\<close> evaluations of its
  loop condition it has issued \<open>fuel\<close> pulses and has neither returned nor stopped, so
  \<open>performHoming\<close> never reaches its error branch. \<open>moveAxisToLimit\<close> on the same input gives up
  after 7776 steps.
\<close>

theorem homing_has_no_step_cap:
  "homeAxis fuel nothing_closes X_STEP_PIN X_DIR_PIN X_LIMIT_PIN DIR_X_IN CHR ''X'' s =
     Unfinished (home_state X_STEP_PIN X_DIR_PIN DIR_X_IN fuel s) \<and>
   trace (home_state X_STEP_PIN X_DIR_PIN DIR_X_IN fuel s) =
     trace s @ [Write X_DIR_PIN HIGH, Wait 50000] @ pulse_train X_STEP_PIN homeAxis_delay 0 fuel \<and>
   performHoming fuel nothing_closes s =
     Unfinished (home_state X_STEP_PIN X_DIR_PIN DIR_X_IN fuel (enableMotors s)) \<and>
   moveAxisToLimit nothing_closes X_STEP_PIN X_DIR_PIN X_LIMIT_PIN DIR_X_IN CHR ''X'' s =
     Return False (seek_state X_STEP_PIN X_DIR_PIN DIR_X_IN 7776 s)"
proof (intro conjI)
  show h: "homeAxis fuel nothing_closes X_STEP_PIN X_DIR_PIN X_LIMIT_PIN DIR_X_IN CHR ''X'' s =
     Unfinished (home_state X_STEP_PIN X_DIR_PIN DIR_X_IN fuel s)" for s
    by (simp add: homeAxis_def homeAxis_loop_stuck home_state_def)
  show "trace (home_state X_STEP_PIN X_DIR_PIN DIR_X_IN fuel s) =
     trace s @ [Write X_DIR_PIN HIGH, Wait 50000] @ pulse_train X_STEP_PIN homeAxis_delay 0 fuel"
    by (simp add: DIR_X_IN_def)
  show "performHoming fuel nothing_closes s =
     Unfinished (home_state X_STEP_PIN X_DIR_PIN DIR_X_IN fuel (enableMotors s))"
    by (simp add: performHoming_def h andThen_def)
  show "moveAxisToLimit nothing_closes X_STEP_PIN X_DIR_PIN X_LIMIT_PIN DIR_X_IN CHR ''X'' s =
     Return False (seek_state X_STEP_PIN X_DIR_PIN DIR_X_IN 7776 s)"
    using moveAxisToLimit_hits_cap[of "CHR ''X''" nothing_closes X_LIMIT_PIN X_STEP_PIN X_DIR_PIN DIR_X_IN s]
    by (simp add: maxSteps_value)
qed

section \<open>Sequences\<close>

lemma pins_neq [simp]:
  "X_STEP_PIN \<noteq> Y_STEP_PIN" "Y_STEP_PIN \<noteq> X_STEP_PIN"
  "X_STEP_PIN \<noteq> X_DIR_PIN" "X_DIR_PIN \<noteq> X_STEP_PIN"
  "X_STEP_PIN \<noteq> Y_DIR_PIN" "Y_DIR_PIN \<noteq> X_STEP_PIN"
  "Y_STEP_PIN \<noteq> X_DIR_PIN" "X_DIR_PIN \<noteq> Y_STEP_PIN"
  "Y_STEP_PIN \<noteq> Y_DIR_PIN" "Y_DIR_PIN \<noteq> Y_STEP_PIN"
  "X_DIR_PIN \<noteq> Y_DIR_PIN" "Y_DIR_PIN \<noteq> X_DIR_PIN"
  "X_ENABLE_PIN \<noteq> X_STEP_PIN" "X_ENABLE_PIN \<noteq> Y_STEP_PIN"
  "X_ENABLE_PIN \<noteq> X_DIR_PIN" "X_ENABLE_PIN \<noteq> Y_DIR_PIN"
  "Y_ENABLE_PIN \<noteq> X_STEP_PIN" "Y_ENABLE_PIN \<noteq> Y_STEP_PIN"
  "Y_ENABLE_PIN \<noteq> X_DIR_PIN" "Y_ENABLE_PIN \<noteq> Y_DIR_PIN"
  "X_STEP_PIN \<noteq> X_ENABLE_PIN" "Y_STEP_PIN \<noteq> X_ENABLE_PIN"
  "X_STEP_PIN \<noteq> Y_ENABLE_PIN" "Y_STEP_PIN \<noteq> Y_ENABLE_PIN"
  by (simp_all add: pin_defs)

lemma dirs_append [simp]: "dirs d (a @ b) = dirs (dirs d a) b"
  by (induction a arbitrary: d) simp_all

lemma moves_append [simp]: "moves d (a @ b) = moves d a @ moves (dirs d a) b"
  by (induction a arbitrary: d) simp_all

lemma state_changes_append [simp]: "state_changes (a @ b) = state_changes a @ state_changes b"
  by (induction a rule: state_changes.induct) simp_all

lemma pulse_states_append [simp]:
  "pulse_states st (a @ b) = pulse_states st a @ pulse_states (last (st # state_changes a)) b"
  by (induction st a rule: pulse_states.induct) simp_all

lemma state_changes_pulse_train [simp]: "state_changes (pulse_train p f k j) = []"
  by (induction j arbitrary: k) simp_all

lemma dirs_pulse_train_X [simp]: "dirs d (pulse_train X_STEP_PIN f k j) = d"
  by (induction j arbitrary: k) (cases d, simp)+

lemma dirs_pulse_train_Y [simp]: "dirs d (pulse_train Y_STEP_PIN f k j) = d"
  by (induction j arbitrary: k) (cases d, simp)+

lemma moves_pulse_train_X [simp]:
  "moves d (pulse_train X_STEP_PIN f k j) = replicate j (X_STEP_PIN, fst d)"
  by (induction j arbitrary: k) (cases d, simp)+

lemma moves_pulse_train_Y [simp]:
  "moves d (pulse_train Y_STEP_PIN f k j) = replicate j (Y_STEP_PIN, snd d)"
  by (induction j arbitrary: k) (cases d, simp)+

lemma pulse_states_pulse_train [simp]:
  "pulse_states st (pulse_train X_STEP_PIN f k j) = replicate j st"
  "pulse_states st (pulse_train Y_STEP_PIN f k j) = replicate j st"
  by (induction j arbitrary: k; simp)+

lemma enable_events [simp]:
  "dir_step d (Write X_ENABLE_PIN v) = d" "dir_step d (Write Y_ENABLE_PIN v) = d"
  "move_of d (Write X_ENABLE_PIN v) = []" "move_of d (Write Y_ENABLE_PIN v) = []"
  "pulse_states st (Write X_ENABLE_PIN v # es) = pulse_states st es"
  "pulse_states st (Write Y_ENABLE_PIN v # es) = pulse_states st es"
  by (cases d, simp)+

lemma dir_events [simp]:
  "dir_step d (Write X_DIR_PIN v) = (v, snd d)" "dir_step d (Write Y_DIR_PIN v) = (fst d, v)"
  "move_of d (Write X_DIR_PIN v) = []" "move_of d (Write Y_DIR_PIN v) = []"
  "pulse_states st (Write X_DIR_PIN v # es) = pulse_states st es"
  "pulse_states st (Write Y_DIR_PIN v # es) = pulse_states st es"
  by (cases d, simp)+

lemma stop_tail_simps [simp]:
  "stop_tail (Return a s) = []"
  "stop_tail (Halt s) = [Write Y_ENABLE_PIN HIGH, Write X_ENABLE_PIN HIGH, SetState STATE_STOPPED]"
  "stop_tail (Unfinished s) = []"
  by (simp_all add: stop_tail_def)

lemma halted_simps [simp]:
  "halted (Return a s) = []" "halted (Halt s) = [STATE_STOPPED]" "halted (Unfinished s) = []"
  by (simp_all add: halted_def)

lemma finished_simps [simp]:
  "finished (Return a s) = [STATE_READY]" "finished (Halt s) = [STATE_STOPPED]" "finished (Unfinished s) = []"
  by (simp_all add: finished_def)

lemma halted_eq_finished: "(\<And>a s. r \<noteq> Return a s) \<Longrightarrow> halted r = finished r"
  by (cases r) auto

lemma stop_tail_obs [simp]:
  "moves d (stop_tail r) = []"
  "state_changes (stop_tail r) = halted r"
  "pulse_states st (stop_tail r) = []"
  by (cases r; simp)+

lemma is_axis_X [simp]: "is_axis X_STEP_PIN X_DIR_PIN"
  by (simp add: is_axis_def)

lemma is_axis_Y [simp]: "is_axis Y_STEP_PIN Y_DIR_PIN"
  by (simp add: is_axis_def)

lemma setState_trace [simp]: "trace (setState st s) = trace s @ [SetState st]"
  by (simp add: setState_def)

lemma digitalWrite_trace [simp]: "trace (digitalWrite p v s) = trace s @ [Write p v]"
  by (simp add: digitalWrite_def)

lemma delay_trace [simp]: "trace (delay ms s) = trace s @ [Wait (1000 * ms)]"
  by (simp add: delay_def delayMicroseconds_def)

lemma delay_currentState [simp]: "currentState (delay ms s) = currentState s"
  by (simp add: delay_def delayMicroseconds_def)

lemma digitalWrite_currentState [simp]: "currentState (digitalWrite p v s) = currentState s"
  by (simp add: digitalWrite_def)

lemma setState_currentState [simp]: "currentState (setState st s) = st"
  by (simp add: setState_def)

lemma effectI:
  "trace (state_of r) = trace s @ new \<Longrightarrow> (\<And>d. moves d new = ms) \<Longrightarrow> state_changes new = cs \<Longrightarrow>
   (\<And>st. pulse_states st new = replicate (length ms) st) \<Longrightarrow>
   currentState (state_of r) = last (currentState s # cs) \<Longrightarrow> effect s r ms cs"
  unfolding effect_def by blast

lemma effect_Return:
  assumes "effect s r ms cs" "r = Return a s1" "effect s1 (k a s1) ms' cs'" "cs = []"
  shows "effect s (andThen r k) (ms @ ms') cs'"
proof -
  from assms(1,2) obtain n1 where 1: "trace s1 = trace s @ n1" "\<And>d. moves d n1 = ms" "state_changes n1 = cs"
    "\<And>st. pulse_states st n1 = replicate (length ms) st" "currentState s1 = last (currentState s # cs)"
    unfolding effect_def by auto
  from assms(3) obtain n2 where 2: "trace (state_of (k a s1)) = trace s1 @ n2" "\<And>d. moves d n2 = ms'"
    "state_changes n2 = cs'" "\<And>st. pulse_states st n2 = replicate (length ms') st"
    "currentState (state_of (k a s1)) = last (currentState s1 # cs')"
    unfolding effect_def by auto
  show ?thesis
    by (rule effectI[of _ _ "n1 @ n2"]) (simp_all add: assms(2,4) andThen_def 1 2 replicate_add)
qed

lemma effect_not_Return:
  assumes "effect s r ms cs" "\<And>a s1. r \<noteq> Return a s1"
  shows "effect s (andThen r k) ms cs"
    and "state_of (andThen r k) = state_of r"
    and "finished (andThen r k) = finished r"
    and "halted (andThen r k) = halted r"
    and "\<And>a s1. andThen r k \<noteq> Return a s1"
  using assms by (cases r; simp add: andThen_def effect_def)+

lemma effect_after:
  assumes "effect s1 r ms cs" "trace s1 = trace s @ pre" "\<And>d. moves d pre = []" "state_changes pre = []"
    "\<And>st. pulse_states st pre = []" "currentState s1 = currentState s"
  shows "effect s r ms cs"
proof -
  from assms(1) obtain n where n: "trace (state_of r) = trace s1 @ n" "\<And>d. moves d n = ms" "state_changes n = cs"
    "\<And>st. pulse_states st n = replicate (length ms) st" "currentState (state_of r) = last (currentState s1 # cs)"
    unfolding effect_def by auto
  show ?thesis
    by (rule effectI[of _ _ "pre @ n"]) (simp_all add: n assms)
qed

lemma effect_here: "effect s (Return a s) [] []" "effect s (Unfinished s) [] []"
  by (rule effectI[of _ _ "[]"]; simp)+

lemma effect_emergencyStop: "effect s (emergencyStop s) [] [STATE_STOPPED]"
  by (rule effectI[of _ _ "[Write Y_ENABLE_PIN HIGH, Write X_ENABLE_PIN HIGH, SetState STATE_STOPPED]"])
     (simp_all add: emergencyStop_def)

lemma seek_state_currentState [simp]:
  "currentState (seek_state stepPin dirPin direction j s) = currentState s"
  by (simp add: seek_state_def)

lemma moveAxis_shape:
  "\<exists>j. int j \<le> max 0 steps \<and>
     trace (state_of (moveAxis e stepPin dirPin direction steps s)) =
       trace s @ [Write Y_ENABLE_PIN LOW, Write X_ENABLE_PIN LOW, Wait 10000, Write dirPin direction, Wait 50000]
         @ pulse_train stepPin (moveAxis_delay steps) 0 j
         @ stop_tail (moveAxis e stepPin dirPin direction steps s) \<and>
     (\<forall>u s'. moveAxis e stepPin dirPin direction steps s = Return u s' \<longrightarrow> int j = max 0 steps) \<and>
     (\<forall>s'. moveAxis e stepPin dirPin direction steps s \<noteq> Unfinished s') \<and>
     currentState (state_of (moveAxis e stepPin dirPin direction steps s)) =
       last (currentState s # halted (moveAxis e stepPin dirPin direction steps s))"
proof -
  from moveAxis_run[of steps e stepPin dirPin direction s]
  obtain j where j: "int j \<le> max 0 steps"
    "(let sj = move_state stepPin dirPin direction steps j s in
        if int j < steps
        then digitalRead e E_STOP_PIN sj = LOW \<and>
             moveAxis e stepPin dirPin direction steps s = Halt (stopped sj)
        else moveAxis e stepPin dirPin direction steps s = Return () (sj\<lparr>lastMotorActivity := millis sj\<rparr>))"
    by blast
  show ?thesis
    apply (rule exI[of _ j])
    using j by (auto simp: Let_def move_state_def split: if_splits)
qed

lemma moveAxisToLimit_shape:
  "\<exists>j. int j \<le> maxSteps a \<and>
     trace (state_of (moveAxisToLimit e stepPin dirPin limitPin direction a s)) =
       trace s @ [Write Y_ENABLE_PIN LOW, Write X_ENABLE_PIN LOW, Wait 10000, Write dirPin direction, Wait 50000]
         @ pulse_train stepPin moveAxisToLimit_delay 0 j
         @ stop_tail (moveAxisToLimit e stepPin dirPin limitPin direction a s) \<and>
     (\<forall>ok s'. moveAxisToLimit e stepPin dirPin limitPin direction a s = Return ok s' \<longrightarrow>
        ok = (int j < maxSteps a)) \<and>
     (\<forall>s'. moveAxisToLimit e stepPin dirPin limitPin direction a s \<noteq> Unfinished s') \<and>
     currentState (state_of (moveAxisToLimit e stepPin dirPin limitPin direction a s)) =
       last (currentState s # halted (moveAxisToLimit e stepPin dirPin limitPin direction a s))"
proof -
  from moveAxisToLimit_run[of a e limitPin stepPin dirPin direction s]
  obtain j where j: "int j \<le> maxSteps a"
    "(let sj = seek_state stepPin dirPin direction j s in
        if digitalRead e limitPin sj = HIGH \<and> int j < maxSteps a
        then digitalRead e E_STOP_PIN sj = LOW \<and>
             moveAxisToLimit e stepPin dirPin limitPin direction a s = Halt (stopped sj)
        else if int j \<ge> maxSteps a
        then moveAxisToLimit e stepPin dirPin limitPin direction a s = Return False sj
        else moveAxisToLimit e stepPin dirPin limitPin direction a s
               = Return True (sj\<lparr>lastMotorActivity := millis sj\<rparr>))"
    by blast
  show ?thesis
    apply (rule exI[of _ j])
    using j by (auto simp: Let_def split: if_splits)
qed

lemma homeAxis_shape:
  "\<exists>j hd. (hd = [] \<and> j = 0 \<or> hd = [Write dirPin direction, Wait 50000]) \<and>
     trace (state_of (homeAxis fuel e stepPin dirPin limitPin direction a s)) =
       trace s @ hd @ pulse_train stepPin homeAxis_delay 0 j
         @ stop_tail (homeAxis fuel e stepPin dirPin limitPin direction a s) \<and>
     (\<forall>ok s'. homeAxis fuel e stepPin dirPin limitPin direction a s = Return ok s' \<longrightarrow> ok) \<and>
     (\<forall>s'. homeAxis fuel e stepPin dirPin limitPin direction a s = Unfinished s' \<longrightarrow> j = fuel) \<and>
     currentState (state_of (homeAxis fuel e stepPin dirPin limitPin direction a s)) =
       last (currentState s # halted (homeAxis fuel e stepPin dirPin limitPin direction a s))"
proof (cases "digitalRead e limitPin s = LOW")
  case True
  then have "homeAxis fuel e stepPin dirPin limitPin direction a s = Return True s"
    by (simp add: homeAxis_def)
  then show ?thesis
    by (intro exI[of _ 0] exI[of _ "[]"]) simp
next
  case False
  let ?s0 = "delay 50 (digitalWrite dirPin direction s)"
  have t0: "trace ?s0 = trace s @ [Write dirPin direction, Wait 50000]"
    by (simp add: delay_def delayMicroseconds_def digitalWrite_def)
  from homeAxis_loop_run[of fuel e limitPin stepPin 0 ?s0]
  obtain j where j:
    "(let sj = pulsesFrom stepPin homeAxis_delay 0 j ?s0 in
        if j = fuel then homeAxis_loop fuel e stepPin limitPin 0 ?s0 = Unfinished sj
        else if digitalRead e limitPin sj = HIGH
        then digitalRead e E_STOP_PIN sj = LOW \<and>
             homeAxis_loop fuel e stepPin limitPin 0 ?s0 = Halt (stopped sj)
        else homeAxis_loop fuel e stepPin limitPin 0 ?s0 = Return True sj)"
    by blast
  have h: "homeAxis fuel e stepPin dirPin limitPin direction a s =
      homeAxis_loop fuel e stepPin limitPin 0 ?s0"
    using False by (simp add: homeAxis_def)
  show ?thesis
    unfolding h
    apply (rule exI[of _ j])
    apply (rule exI[of _ "[Write dirPin direction, Wait 50000]"])
    using j t0 by (auto simp: Let_def split: if_splits)
qed

lemma moveAxis_eff:
  assumes "is_axis stepPin dirPin"
  shows "\<exists>j. effect s (moveAxis e stepPin dirPin direction steps s) (replicate j (stepPin, direction))
               (halted (moveAxis e stepPin dirPin direction steps s)) \<and>
     int j \<le> max 0 steps \<and>
     (\<forall>u s'. moveAxis e stepPin dirPin direction steps s = Return u s' \<longrightarrow> int j = max 0 steps) \<and>
     (\<forall>s'. moveAxis e stepPin dirPin direction steps s \<noteq> Unfinished s')"
proof -
  from moveAxis_shape[of steps e stepPin dirPin direction s]
  obtain j where j: "int j \<le> max 0 steps"
     "trace (state_of (moveAxis e stepPin dirPin direction steps s)) =
       trace s @ [Write Y_ENABLE_PIN LOW, Write X_ENABLE_PIN LOW, Wait 10000, Write dirPin direction, Wait 50000]
         @ pulse_train stepPin (moveAxis_delay steps) 0 j
         @ stop_tail (moveAxis e stepPin dirPin direction steps s)"
     "\<forall>u s'. moveAxis e stepPin dirPin direction steps s = Return u s' \<longrightarrow> int j = max 0 steps"
     "\<forall>s'. moveAxis e stepPin dirPin direction steps s \<noteq> Unfinished s'"
     "currentState (state_of (moveAxis e stepPin dirPin direction steps s)) =
       last (currentState s # halted (moveAxis e stepPin dirPin direction steps s))"
    by blast
  have m: "moves d ([Write Y_ENABLE_PIN LOW, Write X_ENABLE_PIN LOW, Wait 10000, Write dirPin direction, Wait 50000]
         @ pulse_train stepPin (moveAxis_delay steps) 0 j
         @ stop_tail (moveAxis e stepPin dirPin direction steps s)) = replicate j (stepPin, direction)" for d
    using assms by (auto simp: is_axis_def)
  have p: "pulse_states st ([Write Y_ENABLE_PIN LOW, Write X_ENABLE_PIN LOW, Wait 10000, Write dirPin direction, Wait 50000]
         @ pulse_train stepPin (moveAxis_delay steps) 0 j
         @ stop_tail (moveAxis e stepPin dirPin direction steps s)) = replicate j st" for st
    using assms by (auto simp: is_axis_def)
  have "effect s (moveAxis e stepPin dirPin direction steps s) (replicate j (stepPin, direction))
               (halted (moveAxis e stepPin dirPin direction steps s))"
    by (rule effectI[OF j(2)], rule m, simp, simp only: p length_replicate, rule j(5))
  then show ?thesis
    using j(1,3,4) by blast
qed

lemma moveAxisToLimit_eff:
  assumes "is_axis stepPin dirPin"
  shows "\<exists>j. effect s (moveAxisToLimit e stepPin dirPin limitPin direction a s) (replicate j (stepPin, direction))
               (halted (moveAxisToLimit e stepPin dirPin limitPin direction a s)) \<and>
     int j \<le> maxSteps a \<and>
     (\<forall>ok s'. moveAxisToLimit e stepPin dirPin limitPin direction a s = Return ok s' \<longrightarrow>
        ok = (int j < maxSteps a)) \<and>
     (\<forall>s'. moveAxisToLimit e stepPin dirPin limitPin direction a s \<noteq> Unfinished s')"
proof -
  from moveAxisToLimit_shape[of a e stepPin dirPin limitPin direction s]
  obtain j where j: "int j \<le> maxSteps a"
     "trace (state_of (moveAxisToLimit e stepPin dirPin limitPin direction a s)) =
       trace s @ [Write Y_ENABLE_PIN LOW, Write X_ENABLE_PIN LOW, Wait 10000, Write dirPin direction, Wait 50000]
         @ pulse_train stepPin moveAxisToLimit_delay 0 j
         @ stop_tail (moveAxisToLimit e stepPin dirPin limitPin direction a s)"
     "\<forall>ok s'. moveAxisToLimit e stepPin dirPin limitPin direction a s = Return ok s' \<longrightarrow>
        ok = (int j < maxSteps a)"
     "\<forall>s'. moveAxisToLimit e stepPin dirPin limitPin direction a s \<noteq> Unfinished s'"
     "currentState (state_of (moveAxisToLimit e stepPin dirPin limitPin direction a s)) =
       last (currentState s # halted (moveAxisToLimit e stepPin dirPin limitPin direction a s))"
    by blast
  have m: "moves d ([Write Y_ENABLE_PIN LOW, Write X_ENABLE_PIN LOW, Wait 10000, Write dirPin direction, Wait 50000]
         @ pulse_train stepPin moveAxisToLimit_delay 0 j
         @ stop_tail (moveAxisToLimit e stepPin dirPin limitPin direction a s)) = replicate j (stepPin, direction)" for d
    using assms by (auto simp: is_axis_def)
  have p: "pulse_states st ([Write Y_ENABLE_PIN LOW, Write X_ENABLE_PIN LOW, Wait 10000, Write dirPin direction, Wait 50000]
         @ pulse_train stepPin moveAxisToLimit_delay 0 j
         @ stop_tail (moveAxisToLimit e stepPin dirPin limitPin direction a s)) = replicate j st" for st
    using assms by (auto simp: is_axis_def)
  have "effect s (moveAxisToLimit e stepPin dirPin limitPin direction a s) (replicate j (stepPin, direction))
               (halted (moveAxisToLimit e stepPin dirPin limitPin direction a s))"
    by (rule effectI[OF j(2)], rule m, simp, simp only: p length_replicate, rule j(5))
  then show ?thesis
    using j(1,3,4) by blast
qed

lemma homeAxis_eff:
  assumes "is_axis stepPin dirPin"
  shows "\<exists>j. effect s (homeAxis fuel e stepPin dirPin limitPin direction a s) (replicate j (stepPin, direction))
               (halted (homeAxis fuel e stepPin dirPin limitPin direction a s)) \<and>
     (\<forall>ok s'. homeAxis fuel e stepPin dirPin limitPin direction a s = Return ok s' \<longrightarrow> ok) \<and>
     (\<forall>s'. homeAxis fuel e stepPin dirPin limitPin direction a s = Unfinished s' \<longrightarrow> j = fuel)"
proof -
  from homeAxis_shape[of dirPin direction fuel e stepPin limitPin a s]
  obtain j hd where j: "hd = [] \<and> j = 0 \<or> hd = [Write dirPin direction, Wait 50000]"
     "trace (state_of (homeAxis fuel e stepPin dirPin limitPin direction a s)) =
       trace s @ hd @ pulse_train stepPin homeAxis_delay 0 j
         @ stop_tail (homeAxis fuel e stepPin dirPin limitPin direction a s)"
     "\<forall>ok s'. homeAxis fuel e stepPin dirPin limitPin direction a s = Return ok s' \<longrightarrow> ok"
     "currentState (state_of (homeAxis fuel e stepPin dirPin limitPin direction a s)) =
       last (currentState s # halted (homeAxis fuel e stepPin dirPin limitPin direction a s))"
     "\<forall>s'. homeAxis fuel e stepPin dirPin limitPin direction a s = Unfinished s' \<longrightarrow> j = fuel"
    by blast
  have m: "moves d (hd @ pulse_train stepPin homeAxis_delay 0 j
         @ stop_tail (homeAxis fuel e stepPin dirPin limitPin direction a s)) = replicate j (stepPin, direction)" for d
    using j(1) assms by (auto simp: is_axis_def)
  have p: "pulse_states st (hd @ pulse_train stepPin homeAxis_delay 0 j
         @ stop_tail (homeAxis fuel e stepPin dirPin limitPin direction a s)) = replicate j st" for st
    using j(1) assms by (auto simp: is_axis_def)
  have c: "state_changes hd = []"
    using j(1) by auto
  have "effect s (homeAxis fuel e stepPin dirPin limitPin direction a s) (replicate j (stepPin, direction))
               (halted (homeAxis fuel e stepPin dirPin limitPin direction a s))"
    by (rule effectI[OF j(2)], rule m, simp add: c, simp only: p length_replicate, rule j(4))
  then show ?thesis
    using j(3,5) by blast
qed

lemma waitRelease_eff:
  "effect s (waitRelease n e s) [] [] \<and> (\<forall>s'. waitRelease n e s \<noteq> Halt s')"
proof (induction n arbitrary: s)
  case 0
  show ?case by (simp add: effect_here)
next
  case (Suc n)
  show ?case
  proof (cases "digitalRead e COOL_EN_PIN s = LOW")
    case True
    then have w: "waitRelease (Suc n) e s = waitRelease n e (delay 10 s)"
      by simp
    from effect_after[of "delay 10 s" "waitRelease n e (delay 10 s)" "[]" "[]" s "[Wait 10000]"]
      Suc[of "delay 10 s"]
    show ?thesis
      unfolding w by simp
  next
    case False
    then show ?thesis by (simp add: effect_here)
  qed
qed

lemma waitPress_loop_eff:
  "effect s (waitPress_loop fuel n e s) [] (halted (waitPress_loop fuel n e s))"
proof (induction n arbitrary: s)
  case 0
  show ?case by (simp add: effect_here)
next
  case (Suc n)
  show ?case
  proof (cases "digitalRead e E_STOP_PIN s = LOW")
    case True
    then have "waitPress_loop fuel (Suc n) e s = Halt (stopped s)"
      by (simp add: checkEStop_simps andThen_def)
    then show ?thesis
      using effect_emergencyStop[of s] by (simp add: emergencyStop_def)
  next
    case False
    then have ce: "checkEStop e s = Return False s"
      by (simp add: checkEStop_simps)
    show ?thesis
    proof (cases "digitalRead e COOL_EN_PIN s = LOW")
      case low: True
      show ?thesis
      proof (cases "digitalRead e COOL_EN_PIN (delay 50 s) = LOW")
        case True
        then have w: "waitPress_loop fuel (Suc n) e s = waitRelease fuel e (delay 50 s)"
          using ce low by (simp add: andThen_def Let_def)
        have h: "halted (waitRelease fuel e (delay 50 s)) = []"
          using waitRelease_eff[of "delay 50 s" fuel e] by (cases "waitRelease fuel e (delay 50 s)") auto
        from effect_after[of "delay 50 s" "waitRelease fuel e (delay 50 s)" "[]" "[]" s "[Wait 50000]"]
          waitRelease_eff[of "delay 50 s" fuel e]
        show ?thesis
          unfolding w h by simp
      next
        case False
        then have w: "waitPress_loop fuel (Suc n) e s = waitPress_loop fuel n e (delay 10 (delay 50 s))"
          using ce low by (simp add: andThen_def Let_def)
        from effect_after[of "delay 10 (delay 50 s)" "waitPress_loop fuel n e (delay 10 (delay 50 s))" "[]"
            "halted (waitPress_loop fuel n e (delay 10 (delay 50 s)))" s "[Wait 50000, Wait 10000]"]
          Suc[of "delay 10 (delay 50 s)"]
        show ?thesis
          unfolding w by simp
      qed
    next
      case False
      then have w: "waitPress_loop fuel (Suc n) e s = waitPress_loop fuel n e (delay 10 s)"
        using ce by (simp add: andThen_def)
      from effect_after[of "delay 10 s" "waitPress_loop fuel n e (delay 10 s)" "[]"
          "halted (waitPress_loop fuel n e (delay 10 s))" s "[Wait 10000]"] Suc[of "delay 10 s"]
      show ?thesis
        unfolding w by simp
    qed
  qed
qed

lemma waitForButtonPress_eff:
  "effect s (waitForButtonPress fuel e s) [] (halted (waitForButtonPress fuel e s))"
proof (cases "waitRelease fuel e s")
  case (Return u s1)
  then have w: "waitForButtonPress fuel e s = waitPress_loop fuel fuel e (delay 100 s1)"
    by (simp add: waitForButtonPress_def andThen_def)
  have 1: "effect s (waitRelease fuel e s) [] []"
    using waitRelease_eff[of s fuel e] by simp
  have 2: "effect s1 (waitPress_loop fuel fuel e (delay 100 s1)) []
      (halted (waitPress_loop fuel fuel e (delay 100 s1)))"
    using effect_after[of "delay 100 s1" "waitPress_loop fuel fuel e (delay 100 s1)" "[]"
        "halted (waitPress_loop fuel fuel e (delay 100 s1))" s1 "[Wait 100000]"]
      waitPress_loop_eff[of "delay 100 s1" fuel fuel e]
    by simp
  from effect_Return[where k = "\<lambda>u s1. waitPress_loop fuel fuel e (delay 100 s1)", OF 1 Return 2]
  show ?thesis
    unfolding w using Return by (simp add: andThen_def)
next
  case (Halt s1)
  with waitRelease_eff[of s fuel e] show ?thesis by simp
next
  case (Unfinished s1)
  then have w: "waitForButtonPress fuel e s = Unfinished s1"
    by (simp add: waitForButtonPress_def andThen_def)
  from waitRelease_eff[of s fuel e] show ?thesis
    unfolding w Unfinished by simp
qed

lemma effect_finish:
  assumes "effect s r ms (halted r)" "\<And>s2. trace (f s2) = trace s2 @ [SetState STATE_READY]"
    "\<And>s2. currentState (f s2) = STATE_READY"
  shows "effect s (andThen r (\<lambda>ok s2. if \<not> ok then emergencyStop s2 else Return () (f s2))) ms
           (finished (andThen r (\<lambda>ok s2. if \<not> ok then emergencyStop s2 else Return () (f s2))))"
proof (cases r)
  case (Return ok s2)
  from assms(1) Return have 1: "effect s r ms []" "halted r = []"
    by simp_all
  show ?thesis
  proof (cases ok)
    case True
    have e2: "effect s2 (Return () (f s2)) [] [STATE_READY]"
      by (rule effectI[of _ _ "[SetState STATE_READY]"]) (simp_all add: assms(2,3))
    from effect_Return[where k = "\<lambda>ok s2. if \<not> ok then emergencyStop s2 else Return () (f s2)" and a = ok
        and ?s1.0 = s2 and cs' = "[STATE_READY]" and ms' = "[]", OF 1(1) Return _ refl]
    show ?thesis
      using True e2 Return by (simp add: andThen_def)
  next
    case False
    from effect_Return[where k = "\<lambda>ok s2. if \<not> ok then emergencyStop s2 else Return () (f s2)" and a = ok
        and ?s1.0 = s2 and cs' = "[STATE_STOPPED]" and ms' = "[]", OF 1(1) Return _ refl]
    show ?thesis
      using False effect_emergencyStop[of s2] Return by (simp add: andThen_def emergencyStop_def)
  qed
next
  case (Halt s2)
  with assms(1) show ?thesis by (simp add: andThen_def effect_def)
next
  case (Unfinished s2)
  with assms(1) show ?thesis by (simp add: andThen_def effect_def)
qed

lemma andThen_Return_iff:
  "andThen r k = Return b s' \<longleftrightarrow> (\<exists>a s1. r = Return a s1 \<and> k a s1 = Return b s')"
  by (cases r) (simp_all add: andThen_def)

lemma andThen_Unfinished_iff:
  "andThen r k = Unfinished s' \<longleftrightarrow> r = Unfinished s' \<or> (\<exists>a s1. r = Return a s1 \<and> k a s1 = Unfinished s')"
  by (cases r) (auto simp: andThen_def)

lemma andThen_Halt_iff:
  "andThen r k = Halt s' \<longleftrightarrow> r = Halt s' \<or> (\<exists>a s1. r = Return a s1 \<and> k a s1 = Halt s')"
  by (cases r) (auto simp: andThen_def)

text \<open>Why a primitive ends the way it does.\<close>

lemma digitalRead_clock: "clock s' = clock s \<Longrightarrow> digitalRead e p s' = digitalRead e p s"
  by (simp add: digitalRead_def)

lemma digitalRead_stopped [simp]: "digitalRead e p (stopped s) = digitalRead e p s"
  by (simp add: digitalRead_def)

lemma moveAxis_Halt:
  assumes "moveAxis e stepPin dirPin direction steps s = Halt s'"
  shows "digitalRead e E_STOP_PIN s' = LOW"
proof -
  from moveAxis_run[of steps e stepPin dirPin direction s]
  obtain j where j:
    "(let sj = move_state stepPin dirPin direction steps j s in
        if int j < steps
        then digitalRead e E_STOP_PIN sj = LOW \<and>
             moveAxis e stepPin dirPin direction steps s = Halt (stopped sj)
        else moveAxis e stepPin dirPin direction steps s = Return () (sj\<lparr>lastMotorActivity := millis sj\<rparr>))"
    by blast
  show ?thesis
    using j assms by (auto simp: Let_def split: if_splits)
qed

lemma moveAxisToLimit_Halt:
  assumes "moveAxisToLimit e stepPin dirPin limitPin direction a s = Halt s'"
  shows "digitalRead e E_STOP_PIN s' = LOW"
proof -
  from moveAxisToLimit_run[of a e limitPin stepPin dirPin direction s]
  obtain j where j:
    "(let sj = seek_state stepPin dirPin direction j s in
        if digitalRead e limitPin sj = HIGH \<and> int j < maxSteps a
        then digitalRead e E_STOP_PIN sj = LOW \<and>
             moveAxisToLimit e stepPin dirPin limitPin direction a s = Halt (stopped sj)
        else if int j \<ge> maxSteps a
        then moveAxisToLimit e stepPin dirPin limitPin direction a s = Return False sj
        else moveAxisToLimit e stepPin dirPin limitPin direction a s
               = Return True (sj\<lparr>lastMotorActivity := millis sj\<rparr>))"
    by blast
  show ?thesis
    using j assms by (auto simp: Let_def split: if_splits)
qed

lemma moveAxisToLimit_Return_limit:
  assumes "moveAxisToLimit e stepPin dirPin limitPin direction a s = Return True s'"
  shows "digitalRead e limitPin s' = LOW"
proof -
  from moveAxisToLimit_run[of a e limitPin stepPin dirPin direction s]
  obtain j where j:
    "(let sj = seek_state stepPin dirPin direction j s in
        if digitalRead e limitPin sj = HIGH \<and> int j < maxSteps a
        then digitalRead e E_STOP_PIN sj = LOW \<and>
             moveAxisToLimit e stepPin dirPin limitPin direction a s = Halt (stopped sj)
        else if int j \<ge> maxSteps a
        then moveAxisToLimit e stepPin dirPin limitPin direction a s = Return False sj
        else moveAxisToLimit e stepPin dirPin limitPin direction a s
               = Return True (sj\<lparr>lastMotorActivity := millis sj\<rparr>))"
    by blast
  show ?thesis
    using j assms by (auto simp: Let_def digitalRead_def split: if_splits)
qed

lemma homeAxis_outcome:
  "(\<forall>s'. homeAxis fuel e stepPin dirPin limitPin direction a s = Halt s' \<longrightarrow>
      digitalRead e E_STOP_PIN s' = LOW) \<and>
   (\<forall>ok s'. homeAxis fuel e stepPin dirPin limitPin direction a s = Return ok s' \<longrightarrow>
      ok \<and> digitalRead e limitPin s' = LOW)"
proof (cases "digitalRead e limitPin s = LOW")
  case True
  then show ?thesis
    by (simp add: homeAxis_def)
next
  case False
  let ?s0 = "delay 50 (digitalWrite dirPin direction s)"
  from homeAxis_loop_run[of fuel e limitPin stepPin 0 ?s0]
  obtain j where j:
    "(let sj = pulsesFrom stepPin homeAxis_delay 0 j ?s0 in
        if j = fuel then homeAxis_loop fuel e stepPin limitPin 0 ?s0 = Unfinished sj
        else if digitalRead e limitPin sj = HIGH
        then digitalRead e E_STOP_PIN sj = LOW \<and>
             homeAxis_loop fuel e stepPin limitPin 0 ?s0 = Halt (stopped sj)
        else homeAxis_loop fuel e stepPin limitPin 0 ?s0 = Return True sj)"
    by blast
  have h: "homeAxis fuel e stepPin dirPin limitPin direction a s =
      homeAxis_loop fuel e stepPin limitPin 0 ?s0"
    using False by (simp add: homeAxis_def)
  show ?thesis
    unfolding h using j by (auto simp: Let_def split: if_splits)
qed

lemma waitPress_loop_Halt:
  "waitPress_loop fuel n e s = Halt s' \<Longrightarrow> digitalRead e E_STOP_PIN s' = LOW"
proof (induction n arbitrary: s)
  case 0
  then show ?case by simp
next
  case (Suc n)
  show ?case
  proof (cases "digitalRead e E_STOP_PIN s = LOW")
    case True
    then have "waitPress_loop fuel (Suc n) e s = Halt (stopped s)"
      by (simp add: checkEStop_simps andThen_def)
    with Suc.prems True show ?thesis by simp
  next
    case False
    then have ce: "checkEStop e s = Return False s"
      by (simp add: checkEStop_simps)
    show ?thesis
    proof (cases "digitalRead e COOL_EN_PIN s = LOW")
      case low: True
      show ?thesis
      proof (cases "digitalRead e COOL_EN_PIN (delay 50 s) = LOW")
        case True
        then have w: "waitPress_loop fuel (Suc n) e s = waitRelease fuel e (delay 50 s)"
          using ce low by (simp add: andThen_def Let_def)
        from Suc.prems[unfolded w] waitRelease_eff[of "delay 50 s" fuel e] show ?thesis
          by blast
      next
        case False
        then have w: "waitPress_loop fuel (Suc n) e s = waitPress_loop fuel n e (delay 10 (delay 50 s))"
          using ce low by (simp add: andThen_def Let_def)
        from Suc.prems[unfolded w] show ?thesis
          by (rule Suc.IH)
      qed
    next
      case False
      then have w: "waitPress_loop fuel (Suc n) e s = waitPress_loop fuel n e (delay 10 s)"
        using ce by (simp add: andThen_def)
      from Suc.prems[unfolded w] show ?thesis
        by (rule Suc.IH)
    qed
  qed
qed

lemma waitForButtonPress_Halt:
  "waitForButtonPress fuel e s = Halt s' \<Longrightarrow> digitalRead e E_STOP_PIN s' = LOW"
  unfolding waitForButtonPress_def andThen_Halt_iff
  using waitRelease_eff[of s fuel e] waitPress_loop_Halt by blast

lemma retractSequence_eff:
  "\<exists>c d'. effect s (retractSequence e s)
       (replicate c (X_STEP_PIN, DIR_X_IN) @ replicate d' (Y_STEP_PIN, DIR_Y_DOWN))
       (finished (retractSequence e s)) \<and>
     int c \<le> maxSteps CHR ''X'' \<and> int d' \<le> maxSteps CHR ''Y'' \<and>
     (0 < d' \<longrightarrow> int c < maxSteps CHR ''X'') \<and>
     (\<forall>u s'. retractSequence e s = Return u s' \<longrightarrow> int c < maxSteps CHR ''X'' \<and> int d' < maxSteps CHR ''Y'') \<and>
     (\<forall>s'. retractSequence e s \<noteq> Unfinished s') \<and>
     (\<forall>s'. retractSequence e s = Halt s' \<longrightarrow>
        digitalRead e E_STOP_PIN s' = LOW \<or> int c = maxSteps CHR ''X'' \<or> int d' = maxSteps CHR ''Y'') \<and>
     (0 < d' \<longrightarrow> (\<exists>s1. moveAxisToLimit e X_STEP_PIN X_DIR_PIN X_LIMIT_PIN DIR_X_IN CHR ''X'' s = Return True s1))"
proof -
  let ?k2 = "\<lambda>ok s2. if \<not> ok then emergencyStop s2 else Return () (setState STATE_READY s2)"
  let ?r2 = "\<lambda>s1. moveAxisToLimit e Y_STEP_PIN Y_DIR_PIN Y_LIMIT_PIN DIR_Y_DOWN CHR ''Y'' s1"
  let ?k1 = "\<lambda>ok s1. if \<not> ok then emergencyStop s1 else andThen (?r2 s1) ?k2"
  let ?r1 = "moveAxisToLimit e X_STEP_PIN X_DIR_PIN X_LIMIT_PIN DIR_X_IN CHR ''X'' s"
  have rs: "retractSequence e s = andThen ?r1 ?k1"
    by (simp add: retractSequence_def)
  from moveAxisToLimit_eff[OF is_axis_X, of s e X_LIMIT_PIN DIR_X_IN "CHR ''X''"]
  obtain c where c: "effect s ?r1 (replicate c (X_STEP_PIN, DIR_X_IN)) (halted ?r1)"
    "int c \<le> maxSteps CHR ''X''"
    "\<forall>ok s'. ?r1 = Return ok s' \<longrightarrow> ok = (int c < maxSteps CHR ''X'')"
    "\<forall>s'. ?r1 \<noteq> Unfinished s'"
    by blast
  show ?thesis
  proof (cases "\<exists>s1. ?r1 = Return True s1")
    case False
    have 1: "effect s (andThen ?r1 ?k1) (replicate c (X_STEP_PIN, DIR_X_IN)) (finished (andThen ?r1 ?k1))"
    proof (cases ?r1)
      case (Return ok s1)
      with False have nok: "\<not> ok" by auto
      from effect_Return[where k = ?k1 and a = ok and ?s1.0 = s1 and cs' = "[STATE_STOPPED]" and ms' = "[]",
          OF c(1) Return]
      show ?thesis
        using nok effect_emergencyStop[of s1] Return by (simp add: andThen_def emergencyStop_def)
    next
      case (Halt s1)
      with c(1) show ?thesis by (simp add: andThen_def effect_def)
    next
      case (Unfinished s1)
      with c(4) show ?thesis by simp
    qed
    have 2: "\<And>u s'. andThen ?r1 ?k1 \<noteq> Return u s'" "\<And>s'. andThen ?r1 ?k1 \<noteq> Unfinished s'"
      using False c(4) by (auto simp: andThen_Return_iff andThen_Unfinished_iff emergencyStop_def)
    have 3: "digitalRead e E_STOP_PIN s' = LOW \<or> int c = maxSteps CHR ''X''" if "andThen ?r1 ?k1 = Halt s'" for s'
    proof (cases ?r1)
      case (Return ok s1)
      with False have "\<not> ok" by auto
      with c(3) Return have "\<not> int c < maxSteps CHR ''X''" by auto
      with c(2) show ?thesis by simp
    next
      case (Halt s1)
      with that have "?r1 = Halt s'" by (simp add: andThen_def)
      then show ?thesis
        using moveAxisToLimit_Halt by blast
    next
      case (Unfinished s1)
      with c(4) show ?thesis by simp
    qed
    show ?thesis
      unfolding rs
      apply (rule exI[of _ c], rule exI[of _ 0])
      using 1 2 3 c(2) by (simp add: maxSteps_value)
  next
    case True
    then obtain s1 where r1: "?r1 = Return True s1"
      by blast
    with c(3) have cx: "int c < maxSteps CHR ''X''"
      by auto
    from moveAxisToLimit_eff[OF is_axis_Y, of s1 e Y_LIMIT_PIN DIR_Y_DOWN "CHR ''Y''"]
    obtain d' where d: "effect s1 (?r2 s1) (replicate d' (Y_STEP_PIN, DIR_Y_DOWN)) (halted (?r2 s1))"
      "int d' \<le> maxSteps CHR ''Y''"
      "\<forall>ok s'. ?r2 s1 = Return ok s' \<longrightarrow> ok = (int d' < maxSteps CHR ''Y'')"
      "\<forall>s'. ?r2 s1 \<noteq> Unfinished s'"
      by blast
    have e2: "effect s1 (andThen (?r2 s1) ?k2) (replicate d' (Y_STEP_PIN, DIR_Y_DOWN))
        (finished (andThen (?r2 s1) ?k2))"
      by (rule effect_finish[OF d(1)]) simp_all
    have k: "andThen ?r1 ?k1 = andThen (?r2 s1) ?k2"
      using r1 by (simp add: andThen_def)
    from effect_Return[where k = ?k1 and a = True and ?s1.0 = s1, OF c(1) r1] e2 r1
    have 1: "effect s (andThen ?r1 ?k1)
        (replicate c (X_STEP_PIN, DIR_X_IN) @ replicate d' (Y_STEP_PIN, DIR_Y_DOWN))
        (finished (andThen ?r1 ?k1))"
      unfolding k by simp
    have 2: "\<And>u s'. andThen (?r2 s1) ?k2 = Return u s' \<Longrightarrow> int d' < maxSteps CHR ''Y''"
      using d(3) by (auto simp: andThen_Return_iff emergencyStop_def split: if_splits)
    have 3: "\<And>s'. andThen (?r2 s1) ?k2 \<noteq> Unfinished s'"
      using d(4) by (auto simp: andThen_Unfinished_iff emergencyStop_def)
    have 4: "digitalRead e E_STOP_PIN s' = LOW \<or> int d' = maxSteps CHR ''Y''" if "andThen (?r2 s1) ?k2 = Halt s'" for s'
    proof (cases "?r2 s1")
      case (Return ok s2)
      with that have "\<not> ok" by (auto simp: andThen_def split: if_splits)
      with d(3) Return have "\<not> int d' < maxSteps CHR ''Y''" by auto
      with d(2) show ?thesis by simp
    next
      case (Halt s2)
      with that have "?r2 s1 = Halt s'" by (simp add: andThen_def)
      then show ?thesis
        using moveAxisToLimit_Halt by blast
    next
      case (Unfinished s2)
      with d(4) show ?thesis by simp
    qed
    show ?thesis
      unfolding rs
      apply (rule exI[of _ c], rule exI[of _ d'])
      using 1 2 3 4 cx c(2) d(2) r1 unfolding k by auto
  qed
qed

lemma performHoming_eff:
  "\<exists>a b. effect s (performHoming fuel e s)
       (replicate a (X_STEP_PIN, DIR_X_IN) @ replicate b (Y_STEP_PIN, DIR_Y_DOWN))
       (finished (performHoming fuel e s)) \<and>
     (0 < b \<longrightarrow> (\<exists>s1. homeAxis fuel e X_STEP_PIN X_DIR_PIN X_LIMIT_PIN DIR_X_IN CHR ''X'' (enableMotors s)
                        = Return True s1)) \<and>
     (\<forall>s'. performHoming fuel e s = Unfinished s' \<longrightarrow> a = fuel \<or> b = fuel)"
proof -
  let ?k2 = "\<lambda>ok s2. if \<not> ok then emergencyStop s2 else Return () (setState STATE_READY (s2\<lparr>isHomed := True\<rparr>))"
  let ?r2 = "\<lambda>s1. homeAxis fuel e Y_STEP_PIN Y_DIR_PIN Y_LIMIT_PIN DIR_Y_DOWN CHR ''Y'' s1"
  let ?k1 = "\<lambda>ok s1. if \<not> ok then emergencyStop s1 else andThen (?r2 s1) ?k2"
  let ?r1 = "homeAxis fuel e X_STEP_PIN X_DIR_PIN X_LIMIT_PIN DIR_X_IN CHR ''X'' (enableMotors s)"
  have ph: "performHoming fuel e s = andThen ?r1 ?k1"
    by (simp add: performHoming_def)
  from homeAxis_eff[OF is_axis_X, of "enableMotors s" fuel e X_LIMIT_PIN DIR_X_IN "CHR ''X''"]
  obtain a where a0: "effect (enableMotors s) ?r1 (replicate a (X_STEP_PIN, DIR_X_IN)) (halted ?r1)"
    and ok1: "\<forall>ok s'. ?r1 = Return ok s' \<longrightarrow> ok"
    and uf1: "\<forall>s'. ?r1 = Unfinished s' \<longrightarrow> a = fuel"
    by blast
  have a: "effect s ?r1 (replicate a (X_STEP_PIN, DIR_X_IN)) (halted ?r1)"
    using effect_after[OF a0, of s "[Write Y_ENABLE_PIN LOW, Write X_ENABLE_PIN LOW, Wait 10000]"]
    by simp
  show ?thesis
  proof (cases "\<exists>ok s1. ?r1 = Return ok s1")
    case False
    then have nr: "\<And>ok s1. ?r1 \<noteq> Return ok s1"
      by blast
    have 1: "effect s (performHoming fuel e s) (replicate a (X_STEP_PIN, DIR_X_IN) @ replicate 0 (Y_STEP_PIN, DIR_Y_DOWN))
        (finished (performHoming fuel e s))"
      unfolding ph
      using effect_not_Return(1,3)[OF a nr, of ?k1] halted_eq_finished[of ?r1, OF nr] by simp
    have 2: "a = fuel" if "performHoming fuel e s = Unfinished s'" for s'
      using that nr uf1 unfolding ph andThen_Unfinished_iff by blast
    show ?thesis
      apply (rule exI[of _ a], rule exI[of _ 0])
      using 1 2 by simp
  next
    case True
    then obtain ok s1 where "?r1 = Return ok s1"
      by blast
    with ok1 have r1: "?r1 = Return True s1"
      by auto
    from homeAxis_eff[OF is_axis_Y, of s1 fuel e Y_LIMIT_PIN DIR_Y_DOWN "CHR ''Y''"]
    obtain b where b: "effect s1 (?r2 s1) (replicate b (Y_STEP_PIN, DIR_Y_DOWN)) (halted (?r2 s1))"
      and uf2: "\<forall>s'. ?r2 s1 = Unfinished s' \<longrightarrow> b = fuel"
      by blast
    have e2: "effect s1 (andThen (?r2 s1) ?k2) (replicate b (Y_STEP_PIN, DIR_Y_DOWN))
        (finished (andThen (?r2 s1) ?k2))"
      by (rule effect_finish[OF b]) (simp_all add: setState_def)
    have k: "andThen ?r1 ?k1 = andThen (?r2 s1) ?k2"
      using r1 by (simp add: andThen_def)
    from effect_Return[where k = ?k1 and a = True and ?s1.0 = s1, OF a r1] e2 r1
    have 1: "effect s (andThen ?r1 ?k1)
        (replicate a (X_STEP_PIN, DIR_X_IN) @ replicate b (Y_STEP_PIN, DIR_Y_DOWN))
        (finished (andThen ?r1 ?k1))"
      unfolding k by simp
    have 2: "b = fuel" if "andThen (?r2 s1) ?k2 = Unfinished s'" for s'
      using that uf2 unfolding andThen_Unfinished_iff by (auto simp: emergencyStop_def split: if_splits)
    show ?thesis
      unfolding ph
      apply (rule exI[of _ a], rule exI[of _ b])
      using 1 2 r1 unfolding k by auto
  qed
qed

lemma extendSequence_eff:
  "\<exists>a b c d'. effect s (extendSequence fuel e s)
       (replicate a (Y_STEP_PIN, DIR_Y_UP) @ replicate b (X_STEP_PIN, DIR_X_OUT) @
        replicate c (X_STEP_PIN, DIR_X_IN) @ replicate d' (Y_STEP_PIN, DIR_Y_DOWN))
       (finished (extendSequence fuel e s)) \<and>
     int a \<le> Y_MAX_TRAVEL_MM * STEPS_PER_MM \<and> int b \<le> X_MAX_TRAVEL_MM * STEPS_PER_MM \<and>
     (0 < b + c + d' \<longrightarrow> int a = Y_MAX_TRAVEL_MM * STEPS_PER_MM) \<and>
     (0 < c + d' \<longrightarrow> int b = X_MAX_TRAVEL_MM * STEPS_PER_MM) \<and>
     int c \<le> maxSteps CHR ''X'' \<and> int d' \<le> maxSteps CHR ''Y'' \<and>
     (0 < d' \<longrightarrow> int c < maxSteps CHR ''X'') \<and>
     (\<forall>u s'. extendSequence fuel e s = Return u s' \<longrightarrow>
        int a = Y_MAX_TRAVEL_MM * STEPS_PER_MM \<and> int b = X_MAX_TRAVEL_MM * STEPS_PER_MM \<and>
        int c < maxSteps CHR ''X'' \<and> int d' < maxSteps CHR ''Y'') \<and>
     (\<forall>s'. extendSequence fuel e s = Unfinished s' \<longrightarrow>
        int a = Y_MAX_TRAVEL_MM * STEPS_PER_MM \<and> int b = X_MAX_TRAVEL_MM * STEPS_PER_MM \<and> c = 0 \<and> d' = 0) \<and>
     (\<forall>s'. extendSequence fuel e s = Halt s' \<longrightarrow>
        digitalRead e E_STOP_PIN s' = LOW \<or> int c = maxSteps CHR ''X'' \<or> int d' = maxSteps CHR ''Y'')"
proof -
  let ?NY = "Y_MAX_TRAVEL_MM * STEPS_PER_MM"
  let ?NX = "X_MAX_TRAVEL_MM * STEPS_PER_MM"
  let ?k3 = "\<lambda>(u::unit) s3. retractSequence e s3"
  let ?k2 = "\<lambda>(u::unit) s2. andThen (waitForButtonPress fuel e s2) ?k3"
  let ?k1 = "\<lambda>(u::unit) s1. andThen (moveAxis e X_STEP_PIN X_DIR_PIN DIR_X_OUT ?NX s1) ?k2"
  let ?r1 = "moveAxis e Y_STEP_PIN Y_DIR_PIN DIR_Y_UP ?NY s"
  have ex: "extendSequence fuel e s = andThen ?r1 ?k1"
    by (simp add: extendSequence_def)
  have pos: "max 0 ?NY = ?NY" "max 0 ?NX = ?NX"
    by (simp_all add: Y_MAX_TRAVEL_MM_def X_MAX_TRAVEL_MM_def STEPS_PER_MM_def)
  from moveAxis_eff[OF is_axis_Y, of s e DIR_Y_UP ?NY]
  obtain a where a: "effect s ?r1 (replicate a (Y_STEP_PIN, DIR_Y_UP)) (halted ?r1)"
    "int a \<le> ?NY" "\<forall>u s'. ?r1 = Return u s' \<longrightarrow> int a = ?NY" "\<forall>s'. ?r1 \<noteq> Unfinished s'"
    unfolding pos by blast
  show ?thesis
  proof (cases "\<exists>u s1. ?r1 = Return u s1")
    case False
    then have nr: "\<And>u s1. ?r1 \<noteq> Return u s1"
      by blast
    have 1: "effect s (extendSequence fuel e s) (replicate a (Y_STEP_PIN, DIR_Y_UP) @ replicate 0 (X_STEP_PIN, DIR_X_OUT) @
        replicate 0 (X_STEP_PIN, DIR_X_IN) @ replicate 0 (Y_STEP_PIN, DIR_Y_DOWN))
        (finished (extendSequence fuel e s))"
      unfolding ex
      using effect_not_Return(1,3)[OF a(1) nr, of ?k1] halted_eq_finished[of ?r1, OF nr] by simp
    have 2: "\<And>u s'. extendSequence fuel e s \<noteq> Return u s'"
      unfolding ex using effect_not_Return(5)[OF a(1) nr, of ?k1] by blast
    have 3: "\<And>s'. extendSequence fuel e s \<noteq> Unfinished s'"
      unfolding ex andThen_Unfinished_iff using nr a(4) by blast
    have 4: "digitalRead e E_STOP_PIN s' = LOW" if "extendSequence fuel e s = Halt s'" for s'
      using that nr moveAxis_Halt unfolding ex andThen_Halt_iff by blast
    show ?thesis
      apply (rule exI[of _ a], rule exI[of _ 0], rule exI[of _ 0], rule exI[of _ 0])
      using 1 2 3 4 a(2) pos by (simp add: maxSteps_value)
  next
    case True
    then obtain u1 s1 where r1: "?r1 = Return u1 s1"
      by blast
    with a(3) have a_full: "int a = ?NY"
      by blast
    let ?r2 = "moveAxis e X_STEP_PIN X_DIR_PIN DIR_X_OUT ?NX s1"
    from moveAxis_eff[OF is_axis_X, of s1 e DIR_X_OUT ?NX]
    obtain b where b: "effect s1 ?r2 (replicate b (X_STEP_PIN, DIR_X_OUT)) (halted ?r2)"
      "int b \<le> ?NX" "\<forall>u s'. ?r2 = Return u s' \<longrightarrow> int b = ?NX" "\<forall>s'. ?r2 \<noteq> Unfinished s'"
      unfolding pos by blast
    have "\<exists>c d'. effect s1 (andThen ?r2 ?k2)
       (replicate b (X_STEP_PIN, DIR_X_OUT) @ replicate c (X_STEP_PIN, DIR_X_IN) @ replicate d' (Y_STEP_PIN, DIR_Y_DOWN))
       (finished (andThen ?r2 ?k2)) \<and>
       (0 < c + d' \<longrightarrow> int b = ?NX) \<and>
       int c \<le> maxSteps CHR ''X'' \<and> int d' \<le> maxSteps CHR ''Y'' \<and>
       (0 < d' \<longrightarrow> int c < maxSteps CHR ''X'') \<and>
       (\<forall>u s'. andThen ?r2 ?k2 = Return u s' \<longrightarrow>
          int b = ?NX \<and> int c < maxSteps CHR ''X'' \<and> int d' < maxSteps CHR ''Y'') \<and>
       (\<forall>s'. andThen ?r2 ?k2 = Unfinished s' \<longrightarrow> int b = ?NX \<and> c = 0 \<and> d' = 0) \<and>
       (\<forall>s'. andThen ?r2 ?k2 = Halt s' \<longrightarrow>
          digitalRead e E_STOP_PIN s' = LOW \<or> int c = maxSteps CHR ''X'' \<or> int d' = maxSteps CHR ''Y'')"
    proof (cases "\<exists>u s2. ?r2 = Return u s2")
      case False
      then have nr: "\<And>u s2. ?r2 \<noteq> Return u s2"
        by blast
      have 1: "effect s1 (andThen ?r2 ?k2) (replicate b (X_STEP_PIN, DIR_X_OUT) @ replicate 0 (X_STEP_PIN, DIR_X_IN) @
          replicate 0 (Y_STEP_PIN, DIR_Y_DOWN)) (finished (andThen ?r2 ?k2))"
        using effect_not_Return(1,3)[OF b(1) nr, of ?k2] halted_eq_finished[of ?r2, OF nr] by simp
      have 2: "\<And>u s'. andThen ?r2 ?k2 \<noteq> Return u s'"
        using effect_not_Return(5)[OF b(1) nr, of ?k2] by blast
      have 3: "\<And>s'. andThen ?r2 ?k2 \<noteq> Unfinished s'"
        unfolding andThen_Unfinished_iff using nr b(4) by blast
      have 4: "digitalRead e E_STOP_PIN s' = LOW" if "andThen ?r2 ?k2 = Halt s'" for s'
        using that nr moveAxis_Halt unfolding andThen_Halt_iff by blast
      show ?thesis
        apply (rule exI[of _ 0], rule exI[of _ 0])
        using 1 2 3 4 by (simp add: maxSteps_value)
    next
      case True
      then obtain u2 s2 where r2: "?r2 = Return u2 s2"
        by blast
      with b(3) have b_full: "int b = ?NX"
        by blast
      let ?r3 = "waitForButtonPress fuel e s2"
      note w = waitForButtonPress_eff[of s2 fuel e]
      have 3: "\<exists>c d'. effect s2 (andThen ?r3 ?k3)
         (replicate c (X_STEP_PIN, DIR_X_IN) @ replicate d' (Y_STEP_PIN, DIR_Y_DOWN))
         (finished (andThen ?r3 ?k3)) \<and>
         int c \<le> maxSteps CHR ''X'' \<and> int d' \<le> maxSteps CHR ''Y'' \<and>
         (0 < d' \<longrightarrow> int c < maxSteps CHR ''X'') \<and>
         (\<forall>u s'. andThen ?r3 ?k3 = Return u s' \<longrightarrow> int c < maxSteps CHR ''X'' \<and> int d' < maxSteps CHR ''Y'') \<and>
         (\<forall>s'. andThen ?r3 ?k3 = Unfinished s' \<longrightarrow> c = 0 \<and> d' = 0) \<and>
         (\<forall>s'. andThen ?r3 ?k3 = Halt s' \<longrightarrow>
            digitalRead e E_STOP_PIN s' = LOW \<or> int c = maxSteps CHR ''X'' \<or> int d' = maxSteps CHR ''Y'')"
      proof (cases "\<exists>u s3. ?r3 = Return u s3")
        case False
        then have nr: "\<And>u s3. ?r3 \<noteq> Return u s3"
          by blast
        have 1: "effect s2 (andThen ?r3 ?k3) (replicate 0 (X_STEP_PIN, DIR_X_IN) @ replicate 0 (Y_STEP_PIN, DIR_Y_DOWN))
            (finished (andThen ?r3 ?k3))"
          using effect_not_Return(1,3)[OF w nr, of ?k3] halted_eq_finished[of ?r3, OF nr] by simp
        have 2: "\<And>u s'. andThen ?r3 ?k3 \<noteq> Return u s'"
          using effect_not_Return(5)[OF w nr, of ?k3] by blast
        have 4: "digitalRead e E_STOP_PIN s' = LOW" if "andThen ?r3 ?k3 = Halt s'" for s'
          using that nr waitForButtonPress_Halt unfolding andThen_Halt_iff by blast
        show ?thesis
          apply (rule exI[of _ 0], rule exI[of _ 0])
          using 1 2 4 by (simp add: maxSteps_value)
      next
        case True
        then obtain u3 s3 where r3: "?r3 = Return u3 s3"
          by blast
        from retractSequence_eff[of s3 e]
        obtain c d' where cd: "effect s3 (retractSequence e s3)
             (replicate c (X_STEP_PIN, DIR_X_IN) @ replicate d' (Y_STEP_PIN, DIR_Y_DOWN))
             (finished (retractSequence e s3))"
          "int c \<le> maxSteps CHR ''X''" "int d' \<le> maxSteps CHR ''Y''"
          "0 < d' \<longrightarrow> int c < maxSteps CHR ''X''"
          "\<forall>u s'. retractSequence e s3 = Return u s' \<longrightarrow> int c < maxSteps CHR ''X'' \<and> int d' < maxSteps CHR ''Y''"
          "\<forall>s'. retractSequence e s3 \<noteq> Unfinished s'"
          "\<forall>s'. retractSequence e s3 = Halt s' \<longrightarrow>
             digitalRead e E_STOP_PIN s' = LOW \<or> int c = maxSteps CHR ''X'' \<or> int d' = maxSteps CHR ''Y''"
          by blast
        have k: "andThen ?r3 ?k3 = retractSequence e s3"
          using r3 by (simp add: andThen_def)
        from effect_Return[where k = ?k3 and a = u3 and ?s1.0 = s3, OF w r3] cd(1) r3
        have 1: "effect s2 (andThen ?r3 ?k3)
           (replicate c (X_STEP_PIN, DIR_X_IN) @ replicate d' (Y_STEP_PIN, DIR_Y_DOWN))
           (finished (andThen ?r3 ?k3))"
          unfolding k by simp
        show ?thesis
          apply (rule exI[of _ c], rule exI[of _ d'])
          using 1 cd(2-7) unfolding k by simp
      qed
      then obtain c d' where cd: "effect s2 (andThen ?r3 ?k3)
         (replicate c (X_STEP_PIN, DIR_X_IN) @ replicate d' (Y_STEP_PIN, DIR_Y_DOWN))
         (finished (andThen ?r3 ?k3))"
         "int c \<le> maxSteps CHR ''X''" "int d' \<le> maxSteps CHR ''Y''"
         "0 < d' \<longrightarrow> int c < maxSteps CHR ''X''"
         "\<forall>u s'. andThen ?r3 ?k3 = Return u s' \<longrightarrow> int c < maxSteps CHR ''X'' \<and> int d' < maxSteps CHR ''Y''"
         "\<forall>s'. andThen ?r3 ?k3 = Unfinished s' \<longrightarrow> c = 0 \<and> d' = 0"
         "\<forall>s'. andThen ?r3 ?k3 = Halt s' \<longrightarrow>
            digitalRead e E_STOP_PIN s' = LOW \<or> int c = maxSteps CHR ''X'' \<or> int d' = maxSteps CHR ''Y''"
        by blast
      have k: "andThen ?r2 ?k2 = andThen ?r3 ?k3"
        using r2 by (simp add: andThen_def)
      from effect_Return[where k = ?k2 and a = u2 and ?s1.0 = s2, OF b(1) r2] cd(1) r2
      have 1: "effect s1 (andThen ?r2 ?k2)
         (replicate b (X_STEP_PIN, DIR_X_OUT) @ replicate c (X_STEP_PIN, DIR_X_IN) @ replicate d' (Y_STEP_PIN, DIR_Y_DOWN))
         (finished (andThen ?r2 ?k2))"
        unfolding k by simp
      show ?thesis
        apply (rule exI[of _ c], rule exI[of _ d'])
        using 1 cd(2-7) b_full unfolding k by simp
    qed
    then obtain c d' where cd: "effect s1 (andThen ?r2 ?k2)
       (replicate b (X_STEP_PIN, DIR_X_OUT) @ replicate c (X_STEP_PIN, DIR_X_IN) @ replicate d' (Y_STEP_PIN, DIR_Y_DOWN))
       (finished (andThen ?r2 ?k2))"
       "0 < c + d' \<longrightarrow> int b = ?NX"
       "int c \<le> maxSteps CHR ''X''" "int d' \<le> maxSteps CHR ''Y''"
       "0 < d' \<longrightarrow> int c < maxSteps CHR ''X''"
       "\<forall>u s'. andThen ?r2 ?k2 = Return u s' \<longrightarrow>
          int b = ?NX \<and> int c < maxSteps CHR ''X'' \<and> int d' < maxSteps CHR ''Y''"
       "\<forall>s'. andThen ?r2 ?k2 = Unfinished s' \<longrightarrow> int b = ?NX \<and> c = 0 \<and> d' = 0"
       "\<forall>s'. andThen ?r2 ?k2 = Halt s' \<longrightarrow>
          digitalRead e E_STOP_PIN s' = LOW \<or> int c = maxSteps CHR ''X'' \<or> int d' = maxSteps CHR ''Y''"
      by blast
    have k: "andThen ?r1 ?k1 = andThen ?r2 ?k2"
      using r1 by (simp add: andThen_def)
    from effect_Return[where k = ?k1 and a = u1 and ?s1.0 = s1, OF a(1) r1] cd(1) r1
    have 1: "effect s (andThen ?r2 ?k2)
       (replicate a (Y_STEP_PIN, DIR_Y_UP) @ replicate b (X_STEP_PIN, DIR_X_OUT) @
        replicate c (X_STEP_PIN, DIR_X_IN) @ replicate d' (Y_STEP_PIN, DIR_Y_DOWN))
       (finished (andThen ?r2 ?k2))"
      unfolding k by simp
    show ?thesis
      unfolding ex k
      apply (rule exI[of _ a], rule exI[of _ b], rule exI[of _ c], rule exI[of _ d'])
      using 1 cd(2-8) a_full b(2) a(2) by simp
  qed
qed

lemma homeAxis_reaches_limit:
  assumes "digitalRead e limitPin s = HIGH"
    and "\<forall>i<j. digitalRead e limitPin (home_state stepPin dirPin direction i s) = HIGH \<and>
                 digitalRead e E_STOP_PIN (home_state stepPin dirPin direction i s) = HIGH"
    and "j < fuel"
    and "digitalRead e limitPin (home_state stepPin dirPin direction j s) = LOW"
  shows "homeAxis fuel e stepPin dirPin limitPin direction a s =
           Return True (home_state stepPin dirPin direction j s)"
proof -
  let ?s0 = "delay 50 (digitalWrite dirPin direction s)"
  have h: "homeAxis fuel e stepPin dirPin limitPin direction a s = homeAxis_loop fuel e stepPin limitPin 0 ?s0"
    using assms(1) by (simp add: homeAxis_def)
  from homeAxis_loop_run[of fuel e limitPin stepPin 0 ?s0]
  obtain j' where j': "j' \<le> fuel"
    "\<forall>i<j'. digitalRead e limitPin (pulsesFrom stepPin homeAxis_delay 0 i ?s0) = HIGH
            \<and> digitalRead e E_STOP_PIN (pulsesFrom stepPin homeAxis_delay 0 i ?s0) = HIGH"
    "(let sj = pulsesFrom stepPin homeAxis_delay 0 j' ?s0 in
        if j' = fuel then homeAxis_loop fuel e stepPin limitPin 0 ?s0 = Unfinished sj
        else if digitalRead e limitPin sj = HIGH
        then digitalRead e E_STOP_PIN sj = LOW \<and>
             homeAxis_loop fuel e stepPin limitPin 0 ?s0 = Halt (stopped sj)
        else homeAxis_loop fuel e stepPin limitPin 0 ?s0 = Return True sj)"
    by blast
  note a2 = assms(2)[unfolded home_state_def] and a4 = assms(4)[unfolded home_state_def]
  have "\<not> j < j'"
    using j'(2) a4 by auto
  moreover have "\<not> j' < j"
  proof
    assume lt: "j' < j"
    then have "j' \<noteq> fuel" using assms(3) by simp
    with j'(3) a2 lt show False
      by (auto simp: Let_def split: if_splits)
  qed
  ultimately have eq: "j' = j"
    by simp
  show ?thesis
    unfolding h home_state_def
    using j'(3) a4 assms(3) unfolding eq by (auto simp: Let_def split: if_splits)
qed

lemma moveAxis_completes:
  assumes "\<And>s'. digitalRead e E_STOP_PIN s' = HIGH" "0 \<le> steps"
  shows "moveAxis e stepPin dirPin direction steps s =
           Return () ((move_state stepPin dirPin direction steps (nat steps) s)
             \<lparr>lastMotorActivity := millis (move_state stepPin dirPin direction steps (nat steps) s)\<rparr>)"
proof -
  from moveAxis_run[of steps e stepPin dirPin direction s]
  obtain j where j: "int j \<le> max 0 steps"
    "(let sj = move_state stepPin dirPin direction steps j s in
        if int j < steps
        then digitalRead e E_STOP_PIN sj = LOW \<and>
             moveAxis e stepPin dirPin direction steps s = Halt (stopped sj)
        else moveAxis e stepPin dirPin direction steps s = Return () (sj\<lparr>lastMotorActivity := millis sj\<rparr>))"
    by blast
  have "\<not> int j < steps"
    using j(2) assms(1) by (auto simp: Let_def split: if_splits)
  with j(1) assms(2) have "j = nat steps"
    by simp
  with j(2) \<open>\<not> int j < steps\<close> show ?thesis
    by (simp add: Let_def)
qed

lemma performHoming_outcome:
  "(\<forall>s'. performHoming fuel e s = Halt s' \<longrightarrow> digitalRead e E_STOP_PIN s' = LOW) \<and>
   (\<forall>u s'. performHoming fuel e s = Return u s' \<longrightarrow>
      (\<exists>s1. homeAxis fuel e X_STEP_PIN X_DIR_PIN X_LIMIT_PIN DIR_X_IN CHR ''X'' (enableMotors s) = Return True s1 \<and>
            digitalRead e X_LIMIT_PIN s1 = LOW) \<and>
      digitalRead e Y_LIMIT_PIN s' = LOW \<and> isHomed s')"
proof -
  let ?rx = "homeAxis fuel e X_STEP_PIN X_DIR_PIN X_LIMIT_PIN DIR_X_IN CHR ''X'' (enableMotors s)"
  let ?ry = "\<lambda>s1. homeAxis fuel e Y_STEP_PIN Y_DIR_PIN Y_LIMIT_PIN DIR_Y_DOWN CHR ''Y'' s1"
  note ox = homeAxis_outcome[of fuel e X_STEP_PIN X_DIR_PIN X_LIMIT_PIN DIR_X_IN "CHR ''X''" "enableMotors s"]
  have oy: "(\<forall>s'. ?ry s1 = Halt s' \<longrightarrow> digitalRead e E_STOP_PIN s' = LOW) \<and>
            (\<forall>ok s'. ?ry s1 = Return ok s' \<longrightarrow> ok \<and> digitalRead e Y_LIMIT_PIN s' = LOW)" for s1
    by (rule homeAxis_outcome)
  have 1: "digitalRead e E_STOP_PIN s' = LOW" if "performHoming fuel e s = Halt s'" for s'
    using that ox oy unfolding performHoming_def andThen_Halt_iff
    by (auto simp: emergencyStop_def andThen_Halt_iff split: if_splits)
  have 2: "(\<exists>s1. ?rx = Return True s1 \<and> digitalRead e X_LIMIT_PIN s1 = LOW) \<and>
      digitalRead e Y_LIMIT_PIN s' = LOW \<and> isHomed s'" if "performHoming fuel e s = Return u s'" for u s'
  proof -
    from that obtain ok s1 where r1: "?rx = Return ok s1"
      and k1: "(if \<not> ok then emergencyStop s1
                else andThen (?ry s1) (\<lambda>ok s2. if \<not> ok then emergencyStop s2
                       else Return () (setState STATE_READY (s2\<lparr>isHomed := True\<rparr>)))) = Return u s'"
      unfolding performHoming_def andThen_Return_iff by blast
    from r1 ox have ok: "ok" and xl: "digitalRead e X_LIMIT_PIN s1 = LOW"
      by auto
    from k1 ok have "andThen (?ry s1) (\<lambda>ok s2. if \<not> ok then emergencyStop s2
                       else Return () (setState STATE_READY (s2\<lparr>isHomed := True\<rparr>))) = Return u s'"
      by simp
    then obtain ok2 s2 where r2: "?ry s1 = Return ok2 s2"
      and k2: "(if \<not> ok2 then emergencyStop s2
                else Return () (setState STATE_READY (s2\<lparr>isHomed := True\<rparr>))) = Return u s'"
      unfolding andThen_Return_iff by blast
    from r2 oy[of s1] have ok2: "ok2" and yl: "digitalRead e Y_LIMIT_PIN s2 = LOW"
      by auto
    from k2 ok2 have s': "s' = setState STATE_READY (s2\<lparr>isHomed := True\<rparr>)"
      by simp
    show ?thesis
      using r1 ok xl yl unfolding s' by (auto simp: setState_def digitalRead_def)
  qed
  show ?thesis
    using 1 2 by blast
qed

lemma retractSequence_outcome:
  assumes "retractSequence e s = Return u s'"
  shows "(\<exists>s1. moveAxisToLimit e X_STEP_PIN X_DIR_PIN X_LIMIT_PIN DIR_X_IN CHR ''X'' s = Return True s1 \<and>
              digitalRead e X_LIMIT_PIN s1 = LOW) \<and>
         digitalRead e Y_LIMIT_PIN s' = LOW"
proof -
  let ?rx = "moveAxisToLimit e X_STEP_PIN X_DIR_PIN X_LIMIT_PIN DIR_X_IN CHR ''X'' s"
  let ?ry = "\<lambda>s1. moveAxisToLimit e Y_STEP_PIN Y_DIR_PIN Y_LIMIT_PIN DIR_Y_DOWN CHR ''Y'' s1"
  from assms obtain ok s1 where r1: "?rx = Return ok s1"
    and k1: "(if \<not> ok then emergencyStop s1
              else andThen (?ry s1) (\<lambda>ok s2. if \<not> ok then emergencyStop s2
                     else Return () (setState STATE_READY s2))) = Return u s'"
    unfolding retractSequence_def andThen_Return_iff by blast
  from k1 have ok: "ok"
    by (auto simp: emergencyStop_def split: if_splits)
  with r1 have r1': "?rx = Return True s1"
    by simp
  then have xl: "digitalRead e X_LIMIT_PIN s1 = LOW"
    by (rule moveAxisToLimit_Return_limit)
  from k1 ok have "andThen (?ry s1) (\<lambda>ok s2. if \<not> ok then emergencyStop s2
                     else Return () (setState STATE_READY s2)) = Return u s'"
    by simp
  then obtain ok2 s2 where r2: "?ry s1 = Return ok2 s2"
    and k2: "(if \<not> ok2 then emergencyStop s2 else Return () (setState STATE_READY s2)) = Return u s'"
    unfolding andThen_Return_iff by blast
  from k2 have ok2: "ok2" and s': "s' = setState STATE_READY s2"
    by (auto simp: emergencyStop_def split: if_splits)
  from r2 ok2 have "?ry s1 = Return True s2"
    by simp
  then have yl: "digitalRead e Y_LIMIT_PIN s2 = LOW"
    by (rule moveAxisToLimit_Return_limit)
  show ?thesis
    using r1' xl yl unfolding s' by (auto simp: setState_def digitalRead_def)
qed

text \<open>
  Claim C5. In every run, the step pulses of \<open>performHoming\<close> are X pulses towards the limit
  followed by Y pulses towards the limit, and Y only moves after the homing of X has returned with
  the X limit reading low; a run that returns has seen both limits low, one that is still running
  when its bound is used up has issued that many pulses on one axis, and one that stops does so
  on the emergency stop. The pulses of \<open>extendSequence\<close> are Y pulses up, then X pulses out, then
  (after the button wait) X pulses in, then Y pulses down, where X only moves once Y has done its
  full travel of 3440 steps and the retract only starts once X has done its full travel of 6480
  steps; every run that returns, and every run still waiting for the button, has done both full
  travels, and a run that stops does so on the emergency stop or on a limit not reached within the
  cap. The pulses of \<open>retractSequence\<close> are X pulses in followed by Y pulses down, and Y only moves
  once the move of X has returned with the X limit reading low below the cap.
\<close>

theorem axis_order:
  "(\<exists>a b. effect s (performHoming fuel e s)
       (replicate a (X_STEP_PIN, DIR_X_IN) @ replicate b (Y_STEP_PIN, DIR_Y_DOWN))
       (finished (performHoming fuel e s)) \<and>
     (0 < b \<longrightarrow>
        (\<exists>s1. homeAxis fuel e X_STEP_PIN X_DIR_PIN X_LIMIT_PIN DIR_X_IN CHR ''X'' (enableMotors s) = Return True s1 \<and>
              digitalRead e X_LIMIT_PIN s1 = LOW)) \<and>
     (\<forall>u s'. performHoming fuel e s = Return u s' \<longrightarrow>
        (\<exists>s1. homeAxis fuel e X_STEP_PIN X_DIR_PIN X_LIMIT_PIN DIR_X_IN CHR ''X'' (enableMotors s) = Return True s1 \<and>
              digitalRead e X_LIMIT_PIN s1 = LOW) \<and>
        digitalRead e Y_LIMIT_PIN s' = LOW \<and> isHomed s') \<and>
     (\<forall>s'. performHoming fuel e s = Unfinished s' \<longrightarrow> a = fuel \<or> b = fuel) \<and>
     (\<forall>s'. performHoming fuel e s = Halt s' \<longrightarrow> digitalRead e E_STOP_PIN s' = LOW)) \<and>
   (\<exists>a b c d. effect s (extendSequence fuel e s)
       (replicate a (Y_STEP_PIN, DIR_Y_UP) @ replicate b (X_STEP_PIN, DIR_X_OUT) @
        replicate c (X_STEP_PIN, DIR_X_IN) @ replicate d (Y_STEP_PIN, DIR_Y_DOWN))
       (finished (extendSequence fuel e s)) \<and>
     int a \<le> Y_MAX_TRAVEL_MM * STEPS_PER_MM \<and> int b \<le> X_MAX_TRAVEL_MM * STEPS_PER_MM \<and>
     (0 < b + c + d \<longrightarrow> int a = Y_MAX_TRAVEL_MM * STEPS_PER_MM) \<and>
     (0 < c + d \<longrightarrow> int b = X_MAX_TRAVEL_MM * STEPS_PER_MM) \<and>
     (0 < d \<longrightarrow> int c < maxSteps CHR ''X'') \<and>
     (\<forall>u s'. extendSequence fuel e s = Return u s' \<longrightarrow>
        int a = Y_MAX_TRAVEL_MM * STEPS_PER_MM \<and> int b = X_MAX_TRAVEL_MM * STEPS_PER_MM \<and>
        int c < maxSteps CHR ''X'' \<and> int d < maxSteps CHR ''Y'') \<and>
     (\<forall>s'. extendSequence fuel e s = Unfinished s' \<longrightarrow>
        int a = Y_MAX_TRAVEL_MM * STEPS_PER_MM \<and> int b = X_MAX_TRAVEL_MM * STEPS_PER_MM \<and> c = 0 \<and> d = 0) \<and>
     (\<forall>s'. extendSequence fuel e s = Halt s' \<longrightarrow>
        digitalRead e E_STOP_PIN s' = LOW \<or> int c = maxSteps CHR ''X'' \<or> int d = maxSteps CHR ''Y'')) \<and>
   (\<exists>c d. effect s (retractSequence e s)
       (replicate c (X_STEP_PIN, DIR_X_IN) @ replicate d (Y_STEP_PIN, DIR_Y_DOWN))
       (finished (retractSequence e s)) \<and>
     int c \<le> maxSteps CHR ''X'' \<and> int d \<le> maxSteps CHR ''Y'' \<and>
     (0 < d \<longrightarrow> int c < maxSteps CHR ''X'' \<and>
        (\<exists>s1. moveAxisToLimit e X_STEP_PIN X_DIR_PIN X_LIMIT_PIN DIR_X_IN CHR ''X'' s = Return True s1 \<and>
              digitalRead e X_LIMIT_PIN s1 = LOW)) \<and>
     (\<forall>u s'. retractSequence e s = Return u s' \<longrightarrow>
        int c < maxSteps CHR ''X'' \<and> int d < maxSteps CHR ''Y'' \<and>
        (\<exists>s1. moveAxisToLimit e X_STEP_PIN X_DIR_PIN X_LIMIT_PIN DIR_X_IN CHR ''X'' s = Return True s1 \<and>
              digitalRead e X_LIMIT_PIN s1 = LOW) \<and>
        digitalRead e Y_LIMIT_PIN s' = LOW) \<and>
     (\<forall>s'. retractSequence e s \<noteq> Unfinished s') \<and>
     (\<forall>s'. retractSequence e s = Halt s' \<longrightarrow>
        digitalRead e E_STOP_PIN s' = LOW \<or> int c = maxSteps CHR ''X'' \<or> int d = maxSteps CHR ''Y''))"
proof (intro conjI)
  let ?hx = "homeAxis fuel e X_STEP_PIN X_DIR_PIN X_LIMIT_PIN DIR_X_IN CHR ''X'' (enableMotors s)"
  from performHoming_eff[of s fuel e]
  obtain a b where ab: "effect s (performHoming fuel e s)
       (replicate a (X_STEP_PIN, DIR_X_IN) @ replicate b (Y_STEP_PIN, DIR_Y_DOWN))
       (finished (performHoming fuel e s))"
    "0 < b \<longrightarrow> (\<exists>s1. ?hx = Return True s1)"
    "\<forall>s'. performHoming fuel e s = Unfinished s' \<longrightarrow> a = fuel \<or> b = fuel"
    by blast
  have x: "0 < b \<longrightarrow> (\<exists>s1. ?hx = Return True s1 \<and> digitalRead e X_LIMIT_PIN s1 = LOW)"
    using ab(2) homeAxis_outcome[of fuel e X_STEP_PIN X_DIR_PIN X_LIMIT_PIN DIR_X_IN "CHR ''X''" "enableMotors s"]
    by blast
  show "\<exists>a b. effect s (performHoming fuel e s)
       (replicate a (X_STEP_PIN, DIR_X_IN) @ replicate b (Y_STEP_PIN, DIR_Y_DOWN))
       (finished (performHoming fuel e s)) \<and>
     (0 < b \<longrightarrow> (\<exists>s1. ?hx = Return True s1 \<and> digitalRead e X_LIMIT_PIN s1 = LOW)) \<and>
     (\<forall>u s'. performHoming fuel e s = Return u s' \<longrightarrow>
        (\<exists>s1. ?hx = Return True s1 \<and> digitalRead e X_LIMIT_PIN s1 = LOW) \<and>
        digitalRead e Y_LIMIT_PIN s' = LOW \<and> isHomed s') \<and>
     (\<forall>s'. performHoming fuel e s = Unfinished s' \<longrightarrow> a = fuel \<or> b = fuel) \<and>
     (\<forall>s'. performHoming fuel e s = Halt s' \<longrightarrow> digitalRead e E_STOP_PIN s' = LOW)"
    apply (rule exI[of _ a], rule exI[of _ b])
    using ab(1,3) x performHoming_outcome[of fuel e s] by blast
next
  show "\<exists>a b c d. effect s (extendSequence fuel e s)
       (replicate a (Y_STEP_PIN, DIR_Y_UP) @ replicate b (X_STEP_PIN, DIR_X_OUT) @
        replicate c (X_STEP_PIN, DIR_X_IN) @ replicate d (Y_STEP_PIN, DIR_Y_DOWN))
       (finished (extendSequence fuel e s)) \<and>
     int a \<le> Y_MAX_TRAVEL_MM * STEPS_PER_MM \<and> int b \<le> X_MAX_TRAVEL_MM * STEPS_PER_MM \<and>
     (0 < b + c + d \<longrightarrow> int a = Y_MAX_TRAVEL_MM * STEPS_PER_MM) \<and>
     (0 < c + d \<longrightarrow> int b = X_MAX_TRAVEL_MM * STEPS_PER_MM) \<and>
     (0 < d \<longrightarrow> int c < maxSteps CHR ''X'') \<and>
     (\<forall>u s'. extendSequence fuel e s = Return u s' \<longrightarrow>
        int a = Y_MAX_TRAVEL_MM * STEPS_PER_MM \<and> int b = X_MAX_TRAVEL_MM * STEPS_PER_MM \<and>
        int c < maxSteps CHR ''X'' \<and> int d < maxSteps CHR ''Y'') \<and>
     (\<forall>s'. extendSequence fuel e s = Unfinished s' \<longrightarrow>
        int a = Y_MAX_TRAVEL_MM * STEPS_PER_MM \<and> int b = X_MAX_TRAVEL_MM * STEPS_PER_MM \<and> c = 0 \<and> d = 0) \<and>
     (\<forall>s'. extendSequence fuel e s = Halt s' \<longrightarrow>
        digitalRead e E_STOP_PIN s' = LOW \<or> int c = maxSteps CHR ''X'' \<or> int d = maxSteps CHR ''Y'')"
    using extendSequence_eff[of s fuel e] by blast
next
  let ?mx = "moveAxisToLimit e X_STEP_PIN X_DIR_PIN X_LIMIT_PIN DIR_X_IN CHR ''X'' s"
  from retractSequence_eff[of s e]
  obtain c d where cd: "effect s (retractSequence e s)
       (replicate c (X_STEP_PIN, DIR_X_IN) @ replicate d (Y_STEP_PIN, DIR_Y_DOWN))
       (finished (retractSequence e s))"
    "int c \<le> maxSteps CHR ''X''" "int d \<le> maxSteps CHR ''Y''"
    "0 < d \<longrightarrow> int c < maxSteps CHR ''X''"
    "\<forall>u s'. retractSequence e s = Return u s' \<longrightarrow> int c < maxSteps CHR ''X'' \<and> int d < maxSteps CHR ''Y''"
    "\<forall>s'. retractSequence e s \<noteq> Unfinished s'"
    "\<forall>s'. retractSequence e s = Halt s' \<longrightarrow>
        digitalRead e E_STOP_PIN s' = LOW \<or> int c = maxSteps CHR ''X'' \<or> int d = maxSteps CHR ''Y''"
    "0 < d \<longrightarrow> (\<exists>s1. ?mx = Return True s1)"
    by blast
  have x: "0 < d \<longrightarrow> int c < maxSteps CHR ''X'' \<and> (\<exists>s1. ?mx = Return True s1 \<and> digitalRead e X_LIMIT_PIN s1 = LOW)"
    using cd(4,8) moveAxisToLimit_Return_limit by blast
  have r: "\<forall>u s'. retractSequence e s = Return u s' \<longrightarrow>
        int c < maxSteps CHR ''X'' \<and> int d < maxSteps CHR ''Y'' \<and>
        (\<exists>s1. ?mx = Return True s1 \<and> digitalRead e X_LIMIT_PIN s1 = LOW) \<and>
        digitalRead e Y_LIMIT_PIN s' = LOW"
    using cd(5) retractSequence_outcome by blast
  show "\<exists>c d. effect s (retractSequence e s)
       (replicate c (X_STEP_PIN, DIR_X_IN) @ replicate d (Y_STEP_PIN, DIR_Y_DOWN))
       (finished (retractSequence e s)) \<and>
     int c \<le> maxSteps CHR ''X'' \<and> int d \<le> maxSteps CHR ''Y'' \<and>
     (0 < d \<longrightarrow> int c < maxSteps CHR ''X'' \<and>
        (\<exists>s1. ?mx = Return True s1 \<and> digitalRead e X_LIMIT_PIN s1 = LOW)) \<and>
     (\<forall>u s'. retractSequence e s = Return u s' \<longrightarrow>
        int c < maxSteps CHR ''X'' \<and> int d < maxSteps CHR ''Y'' \<and>
        (\<exists>s1. ?mx = Return True s1 \<and> digitalRead e X_LIMIT_PIN s1 = LOW) \<and>
        digitalRead e Y_LIMIT_PIN s' = LOW) \<and>
     (\<forall>s'. retractSequence e s \<noteq> Unfinished s') \<and>
     (\<forall>s'. retractSequence e s = Halt s' \<longrightarrow>
        digitalRead e E_STOP_PIN s' = LOW \<or> int c = maxSteps CHR ''X'' \<or> int d = maxSteps CHR ''Y'')"
    apply (rule exI[of _ c], rule exI[of _ d])
    using cd(1,2,3,6,7) x r by blast
qed

lemma limits_after_read [simp]:
  "digitalRead (limits_after Tx Ty) p s =
     (if p = X_LIMIT_PIN \<and> Tx \<le> clock s \<or> p = Y_LIMIT_PIN \<and> Ty \<le> clock s then LOW else HIGH)"
  by (simp add: digitalRead_def limits_after_def)

lemma retract_run:
  "retractSequence (limits_after 64000 130000) power_on =
     Return () (setState STATE_READY
       ((seek_state Y_STEP_PIN Y_DIR_PIN DIR_Y_DOWN 2
          ((seek_state X_STEP_PIN X_DIR_PIN DIR_X_IN 2 power_on)
             \<lparr>lastMotorActivity := millis (seek_state X_STEP_PIN X_DIR_PIN DIR_X_IN 2 power_on)\<rparr>))
        \<lparr>lastMotorActivity := millis (seek_state Y_STEP_PIN Y_DIR_PIN DIR_Y_DOWN 2
          ((seek_state X_STEP_PIN X_DIR_PIN DIR_X_IN 2 power_on)
             \<lparr>lastMotorActivity := millis (seek_state X_STEP_PIN X_DIR_PIN DIR_X_IN 2 power_on)\<rparr>))\<rparr>))"
proof -
  let ?e = "limits_after 64000 130000"
  let ?s1 = "(seek_state X_STEP_PIN X_DIR_PIN DIR_X_IN 2 power_on)
             \<lparr>lastMotorActivity := millis (seek_state X_STEP_PIN X_DIR_PIN DIR_X_IN 2 power_on)\<rparr>"
  have two: "(2::nat) = Suc (Suc 0)"
    by simp
  have 1: "moveAxisToLimit ?e X_STEP_PIN X_DIR_PIN X_LIMIT_PIN DIR_X_IN CHR ''X'' power_on = Return True ?s1"
    by (rule moveAxisToLimit_reaches_limit)
       (simp_all add: two less_Suc_eq maxSteps_value unat_moveAxisToLimit_delay pin_defs)
  have c1: "clock ?s1 = 66093"
    by (simp add: two unat_moveAxisToLimit_delay)
  have 2: "moveAxisToLimit ?e Y_STEP_PIN Y_DIR_PIN Y_LIMIT_PIN DIR_Y_DOWN CHR ''Y'' ?s1 =
      Return True ((seek_state Y_STEP_PIN Y_DIR_PIN DIR_Y_DOWN 2 ?s1)
        \<lparr>lastMotorActivity := millis (seek_state Y_STEP_PIN Y_DIR_PIN DIR_Y_DOWN 2 ?s1)\<rparr>)"
    by (rule moveAxisToLimit_reaches_limit)
       (simp_all add: c1 two less_Suc_eq maxSteps_value unat_moveAxisToLimit_delay pin_defs del: seek_state_clock, simp_all add: two unat_moveAxisToLimit_delay)
  show ?thesis
    by (simp add: retractSequence_def 1 2 andThen_def)
qed

lemma home_state_clock [simp]:
  "clock (home_state stepPin dirPin direction j s) = clock s + 50000 + train_time homeAxis_delay 0 j"
  by (simp add: home_state_def delay_def delayMicroseconds_def digitalWrite_def)

lemma move_state_fields [simp]:
  "clock (move_state stepPin dirPin direction steps j s) = clock s + 60000 + train_time (moveAxis_delay steps) 0 j"
  "trace (move_state stepPin dirPin direction steps j s) =
     trace s @ [Write Y_ENABLE_PIN LOW, Write X_ENABLE_PIN LOW, Wait 10000, Write dirPin direction, Wait 50000]
       @ pulse_train stepPin (moveAxis_delay steps) 0 j"
  by (simp_all add: move_state_def)

lemma homing_run:
  "performHoming 3 (limits_after 64000 120000) power_on =
     Return () (setState STATE_READY
       ((home_state Y_STEP_PIN Y_DIR_PIN DIR_Y_DOWN 2
          (home_state X_STEP_PIN X_DIR_PIN DIR_X_IN 2 (enableMotors power_on)))\<lparr>isHomed := True\<rparr>))"
proof -
  let ?e = "limits_after 64000 120000"
  let ?s1 = "home_state X_STEP_PIN X_DIR_PIN DIR_X_IN 2 (enableMotors power_on)"
  have two: "(2::nat) = Suc (Suc 0)"
    by simp
  have 1: "homeAxis 3 ?e X_STEP_PIN X_DIR_PIN X_LIMIT_PIN DIR_X_IN CHR ''X'' (enableMotors power_on) = Return True ?s1"
    by (rule homeAxis_reaches_limit)
       (simp_all add: two less_Suc_eq unat_homeAxis_delay pin_defs)
  have c1: "clock ?s1 = 66095"
    by (simp add: two unat_homeAxis_delay)
  have 2: "homeAxis 3 ?e Y_STEP_PIN Y_DIR_PIN Y_LIMIT_PIN DIR_Y_DOWN CHR ''Y'' ?s1 =
      Return True (home_state Y_STEP_PIN Y_DIR_PIN DIR_Y_DOWN 2 ?s1)"
    by (rule homeAxis_reaches_limit)
       (simp_all add: c1 two less_Suc_eq unat_homeAxis_delay pin_defs del: home_state_clock,
        simp_all add: two unat_homeAxis_delay)
  show ?thesis
    by (simp add: performHoming_def 1 2 andThen_def)
qed

lemma cycle_env_read [simp]:
  "digitalRead cycle_env p s =
     (if p = COOL_EN_PIN then (if extended_at + 100000 \<le> clock s \<and> clock s < extended_at + 160000 then LOW else HIGH)
      else if p = X_LIMIT_PIN then (if extended_at + 223000 \<le> clock s then LOW else HIGH)
      else if p = Y_LIMIT_PIN then (if extended_at + 284000 \<le> clock s then LOW else HIGH)
      else HIGH)"
  by (simp add: digitalRead_def cycle_env_def)

lemma input_pins_neq [simp]:
  "E_STOP_PIN \<noteq> COOL_EN_PIN" "E_STOP_PIN \<noteq> X_LIMIT_PIN" "E_STOP_PIN \<noteq> Y_LIMIT_PIN"
  "X_LIMIT_PIN \<noteq> COOL_EN_PIN" "Y_LIMIT_PIN \<noteq> COOL_EN_PIN" "Y_LIMIT_PIN \<noteq> X_LIMIT_PIN"
  by (simp_all add: pin_defs)

lemma travel_steps: "Y_MAX_TRAVEL_MM * STEPS_PER_MM = 3440" "X_MAX_TRAVEL_MM * STEPS_PER_MM = 6480"
  by (simp_all add: Y_MAX_TRAVEL_MM_def X_MAX_TRAVEL_MM_def STEPS_PER_MM_def)

lemma extended_clock [simp]: "clock extended = extended_at"
  by (simp add: extended_def extended_at_def travel_steps Let_def)

lemma extend_moves:
  "andThen (moveAxis cycle_env Y_STEP_PIN Y_DIR_PIN DIR_Y_UP 3440 power_on)
     (\<lambda>u s1. moveAxis cycle_env X_STEP_PIN X_DIR_PIN DIR_X_OUT 6480 s1) = Return () extended"
proof -
  have e: "\<And>s'. digitalRead cycle_env E_STOP_PIN s' = HIGH"
    by simp
  show ?thesis
    by (simp add: moveAxis_completes[OF e] andThen_def extended_def Let_def)
qed

lemma wait_run:
  "waitForButtonPress 2 cycle_env extended = Return () (delay 10 (delay 50 (delay 100 extended)))"
proof -
  have d: "clock (delay n s) = clock s + 1000 * n" for n s
    by (simp add: delay_def delayMicroseconds_def)
  have two: "(2::nat) = Suc (Suc 0)"
    by simp
  have 1: "waitRelease 2 cycle_env extended = Return () extended"
    by (simp add: two)
  have 2: "waitRelease 2 cycle_env (delay 50 (delay 100 extended)) = Return () (delay 10 (delay 50 (delay 100 extended)))"
    by (simp add: two d)
  have 3: "waitPress_loop 2 2 cycle_env (delay 100 extended) = waitRelease 2 cycle_env (delay 50 (delay 100 extended))"
    unfolding two by (simp add: checkEStop_simps andThen_def d Let_def del: waitRelease.simps)
  show ?thesis
    unfolding waitForButtonPress_def 1 using 2 3 by (simp add: andThen_def)
qed

lemma retract_after_wait:
  "retractSequence cycle_env (delay 10 (delay 50 (delay 100 extended))) = Return () retracted"
proof -
  let ?s3 = "delay 10 (delay 50 (delay 100 extended))"
  let ?s4 = "seek_state X_STEP_PIN X_DIR_PIN DIR_X_IN 1 ?s3"
  let ?s4' = "?s4\<lparr>lastMotorActivity := millis ?s4\<rparr>"
  let ?s5 = "seek_state Y_STEP_PIN Y_DIR_PIN DIR_Y_DOWN 1 ?s4'"
  have c3: "clock ?s3 = extended_at + 160000"
    by (simp add: delay_def delayMicroseconds_def)
  have one: "(1::nat) = Suc 0"
    by simp
  have 1: "moveAxisToLimit cycle_env X_STEP_PIN X_DIR_PIN X_LIMIT_PIN DIR_X_IN CHR ''X'' ?s3 = Return True ?s4'"
    by (rule moveAxisToLimit_reaches_limit)
       (simp_all add: c3 maxSteps_value unat_moveAxisToLimit_delay)
  have c4: "clock ?s4' = extended_at + 223050"
    by (simp add: c3 unat_moveAxisToLimit_delay)
  have 2: "moveAxisToLimit cycle_env Y_STEP_PIN Y_DIR_PIN Y_LIMIT_PIN DIR_Y_DOWN CHR ''Y'' ?s4' =
      Return True (?s5\<lparr>lastMotorActivity := millis ?s5\<rparr>)"
    by (rule moveAxisToLimit_reaches_limit)
       (simp_all add: c4 maxSteps_value unat_moveAxisToLimit_delay del: seek_state_clock,
        simp_all add: c3 unat_moveAxisToLimit_delay)
  show ?thesis
    by (simp add: retractSequence_def 1 2 andThen_def retracted_def Let_def del: One_nat_def)
qed

lemma andThen_assoc: "andThen (andThen r k) k' = andThen r (\<lambda>a s. andThen (k a s) k')"
  by (cases r) (simp_all add: andThen_def)

lemma extend_run: "extendSequence 2 cycle_env power_on = Return () retracted"
proof -
  have e1: "extendSequence 2 cycle_env power_on =
      andThen (andThen (moveAxis cycle_env Y_STEP_PIN Y_DIR_PIN DIR_Y_UP 3440 power_on)
                 (\<lambda>u s1. moveAxis cycle_env X_STEP_PIN X_DIR_PIN DIR_X_OUT 6480 s1))
        (\<lambda>u s2. andThen (waitForButtonPress 2 cycle_env s2) (\<lambda>u s3. retractSequence cycle_env s3))"
    unfolding extendSequence_def travel_steps andThen_assoc ..
  show ?thesis
    unfolding e1 extend_moves by (simp add: andThen_def wait_run retract_after_wait)
qed

lemma homing_moves:
  "moves (LOW, LOW) (trace (state_of (performHoming 3 (limits_after 64000 120000) power_on))) =
     [(X_STEP_PIN, HIGH), (X_STEP_PIN, HIGH), (Y_STEP_PIN, HIGH), (Y_STEP_PIN, HIGH)]"
  by (simp add: homing_run DIR_X_IN_def DIR_Y_DOWN_def numeral_2_eq_2 setState_def)

lemma extend_cycle_moves:
  "moves (LOW, LOW) (trace (state_of (extendSequence 2 cycle_env power_on))) =
     replicate 3440 (Y_STEP_PIN, LOW) @ replicate 6480 (X_STEP_PIN, LOW) @ [(X_STEP_PIN, HIGH), (Y_STEP_PIN, HIGH)]"
  by (simp add: extend_run retracted_def extended_def Let_def DIR_X_IN_def DIR_Y_DOWN_def DIR_X_OUT_def DIR_Y_UP_def)

lemma extend_unfinished: "extendSequence 0 cycle_env power_on = Unfinished extended"
proof -
  have e1: "extendSequence 0 cycle_env power_on =
      andThen (andThen (moveAxis cycle_env Y_STEP_PIN Y_DIR_PIN DIR_Y_UP 3440 power_on)
                 (\<lambda>u s1. moveAxis cycle_env X_STEP_PIN X_DIR_PIN DIR_X_OUT 6480 s1))
        (\<lambda>u s2. andThen (waitForButtonPress 0 cycle_env s2) (\<lambda>u s3. retractSequence cycle_env s3))"
    unfolding extendSequence_def travel_steps andThen_assoc ..
  show ?thesis
    unfolding e1 extend_moves by (simp add: andThen_def waitForButtonPress_def)
qed

lemma homing_unfinished:
  "performHoming 3 nothing_closes power_on =
     Unfinished (home_state X_STEP_PIN X_DIR_PIN DIR_X_IN 3 (enableMotors power_on))"
  by (simp add: performHoming_def homeAxis_def homeAxis_loop_stuck home_state_def andThen_def)

lemma extend_halt:
  "extendSequence 2 estop_pressed power_on =
     Halt (stopped (move_state Y_STEP_PIN Y_DIR_PIN DIR_Y_UP 3440 0 power_on))"
proof -
  have "moveAxis estop_pressed Y_STEP_PIN Y_DIR_PIN DIR_Y_UP 3440 power_on =
      Halt (stopped (move_state Y_STEP_PIN Y_DIR_PIN DIR_Y_UP 3440 0 power_on))"
    unfolding moveAxis_def move_state_def
    by (subst moveAxis_loop.simps) (simp add: checkEStop_simps andThen_def)
  then show ?thesis
    by (simp add: extendSequence_def travel_steps andThen_def)
qed

lemma retract_cap:
  "retractSequence nothing_closes power_on =
     Halt (stopped (seek_state X_STEP_PIN X_DIR_PIN DIR_X_IN 7776 power_on))"
proof -
  have "moveAxisToLimit nothing_closes X_STEP_PIN X_DIR_PIN X_LIMIT_PIN DIR_X_IN CHR ''X'' power_on =
      Return False (seek_state X_STEP_PIN X_DIR_PIN DIR_X_IN (nat (maxSteps CHR ''X'')) power_on)"
    by (rule moveAxisToLimit_hits_cap) simp
  then show ?thesis
    by (simp add: retractSequence_def andThen_def emergencyStop_def maxSteps_value)
qed

theorem axis_order_witness:
  "(\<exists>s'. performHoming 3 (limits_after 64000 120000) power_on = Return () s') \<and>
   moves (LOW, LOW) (trace (state_of (performHoming 3 (limits_after 64000 120000) power_on))) =
     [(X_STEP_PIN, HIGH), (X_STEP_PIN, HIGH), (Y_STEP_PIN, HIGH), (Y_STEP_PIN, HIGH)] \<and>
   (\<exists>a b. effect power_on (performHoming 3 (limits_after 64000 120000) power_on)
       (replicate a (X_STEP_PIN, DIR_X_IN) @ replicate b (Y_STEP_PIN, DIR_Y_DOWN)) [STATE_READY]) \<and>
   (\<exists>s1. homeAxis 3 (limits_after 64000 120000) X_STEP_PIN X_DIR_PIN X_LIMIT_PIN DIR_X_IN CHR ''X''
           (enableMotors power_on) = Return True s1 \<and>
         digitalRead (limits_after 64000 120000) X_LIMIT_PIN s1 = LOW) \<and>
   (\<exists>a b. effect power_on (performHoming 3 nothing_closes power_on)
       (replicate a (X_STEP_PIN, DIR_X_IN) @ replicate b (Y_STEP_PIN, DIR_Y_DOWN)) [] \<and> (a = 3 \<or> b = 3)) \<and>
   (\<exists>s'. extendSequence 2 cycle_env power_on = Return () s') \<and>
   moves (LOW, LOW) (trace (state_of (extendSequence 2 cycle_env power_on))) =
     replicate 3440 (Y_STEP_PIN, LOW) @ replicate 6480 (X_STEP_PIN, LOW) @ [(X_STEP_PIN, HIGH), (Y_STEP_PIN, HIGH)] \<and>
   (\<exists>a b c d. effect power_on (extendSequence 2 cycle_env power_on)
       (replicate a (Y_STEP_PIN, DIR_Y_UP) @ replicate b (X_STEP_PIN, DIR_X_OUT) @
        replicate c (X_STEP_PIN, DIR_X_IN) @ replicate d (Y_STEP_PIN, DIR_Y_DOWN)) [STATE_READY] \<and>
       int a = 3440 \<and> int b = 6480 \<and> int c < 7776 \<and> int d < 4128) \<and>
   (\<exists>a b c d. effect power_on (extendSequence 0 cycle_env power_on)
       (replicate a (Y_STEP_PIN, DIR_Y_UP) @ replicate b (X_STEP_PIN, DIR_X_OUT) @
        replicate c (X_STEP_PIN, DIR_X_IN) @ replicate d (Y_STEP_PIN, DIR_Y_DOWN)) [] \<and>
       int a = 3440 \<and> int b = 6480 \<and> c = 0 \<and> d = 0) \<and>
   (\<exists>a b c d. effect power_on (extendSequence 2 estop_pressed power_on)
       (replicate a (Y_STEP_PIN, DIR_Y_UP) @ replicate b (X_STEP_PIN, DIR_X_OUT) @
        replicate c (X_STEP_PIN, DIR_X_IN) @ replicate d (Y_STEP_PIN, DIR_Y_DOWN)) [STATE_STOPPED]) \<and>
   digitalRead estop_pressed E_STOP_PIN (state_of (extendSequence 2 estop_pressed power_on)) = LOW \<and>
   moves (LOW, LOW) (trace (state_of (retractSequence (limits_after 64000 130000) power_on))) =
     [(X_STEP_PIN, HIGH), (X_STEP_PIN, HIGH), (Y_STEP_PIN, HIGH), (Y_STEP_PIN, HIGH)] \<and>
   state_changes (trace (state_of (retractSequence (limits_after 64000 130000) power_on))) = [STATE_READY] \<and>
   (\<exists>c d. effect power_on (retractSequence (limits_after 64000 130000) power_on)
       (replicate c (X_STEP_PIN, DIR_X_IN) @ replicate d (Y_STEP_PIN, DIR_Y_DOWN)) [STATE_READY] \<and>
       int c < 7776 \<and> int d < 4128) \<and>
   (\<exists>c d. effect power_on (retractSequence nothing_closes power_on)
       (replicate c (X_STEP_PIN, DIR_X_IN) @ replicate d (Y_STEP_PIN, DIR_Y_DOWN)) [STATE_STOPPED] \<and>
       (int c = 7776 \<or> int d = 4128))"
proof -
  note h1 = axis_order[of power_on 3 "limits_after 64000 120000", THEN conjunct1]
  note h2 = axis_order[of power_on 3 nothing_closes, THEN conjunct1]
  note e1 = axis_order[of power_on 2 cycle_env, THEN conjunct2, THEN conjunct1]
  note e2 = axis_order[of power_on 0 cycle_env, THEN conjunct2, THEN conjunct1]
  note e3 = axis_order[of power_on 2 estop_pressed, THEN conjunct2, THEN conjunct1]
  note r1 = axis_order[of power_on 0 "limits_after 64000 130000", THEN conjunct2, THEN conjunct2]
  note r2 = axis_order[of power_on 0 nothing_closes, THEN conjunct2, THEN conjunct2]
  have 1: "\<exists>s'. performHoming 3 (limits_after 64000 120000) power_on = Return () s'"
    by (simp add: homing_run)
  have 3: "\<exists>a b. effect power_on (performHoming 3 (limits_after 64000 120000) power_on)
       (replicate a (X_STEP_PIN, DIR_X_IN) @ replicate b (Y_STEP_PIN, DIR_Y_DOWN)) [STATE_READY]"
    using h1 by (simp add: homing_run) blast
  have 4: "\<exists>s1. homeAxis 3 (limits_after 64000 120000) X_STEP_PIN X_DIR_PIN X_LIMIT_PIN DIR_X_IN CHR ''X''
           (enableMotors power_on) = Return True s1 \<and>
         digitalRead (limits_after 64000 120000) X_LIMIT_PIN s1 = LOW"
    using h1 1 by blast
  have 5: "\<exists>a b. effect power_on (performHoming 3 nothing_closes power_on)
       (replicate a (X_STEP_PIN, DIR_X_IN) @ replicate b (Y_STEP_PIN, DIR_Y_DOWN)) [] \<and> (a = 3 \<or> b = 3)"
    using h2 by (simp add: homing_unfinished) (rule exI[of _ 3], rule exI[of _ 0], simp)
  have 6: "\<exists>s'. extendSequence 2 cycle_env power_on = Return () s'"
    by (simp add: extend_run)
  have 8: "\<exists>a b c d. effect power_on (extendSequence 2 cycle_env power_on)
       (replicate a (Y_STEP_PIN, DIR_Y_UP) @ replicate b (X_STEP_PIN, DIR_X_OUT) @
        replicate c (X_STEP_PIN, DIR_X_IN) @ replicate d (Y_STEP_PIN, DIR_Y_DOWN)) [STATE_READY] \<and>
       int a = 3440 \<and> int b = 6480 \<and> int c < 7776 \<and> int d < 4128"
    using e1 by (simp add: extend_run travel_steps maxSteps_value) blast
  have 9: "\<exists>a b c d. effect power_on (extendSequence 0 cycle_env power_on)
       (replicate a (Y_STEP_PIN, DIR_Y_UP) @ replicate b (X_STEP_PIN, DIR_X_OUT) @
        replicate c (X_STEP_PIN, DIR_X_IN) @ replicate d (Y_STEP_PIN, DIR_Y_DOWN)) [] \<and>
       int a = 3440 \<and> int b = 6480 \<and> c = 0 \<and> d = 0"
    using e2 by (simp add: extend_unfinished travel_steps maxSteps_value)
  have 10: "\<exists>a b c d. effect power_on (extendSequence 2 estop_pressed power_on)
       (replicate a (Y_STEP_PIN, DIR_Y_UP) @ replicate b (X_STEP_PIN, DIR_X_OUT) @
        replicate c (X_STEP_PIN, DIR_X_IN) @ replicate d (Y_STEP_PIN, DIR_Y_DOWN)) [STATE_STOPPED]"
    using e3 by (simp add: extend_halt) blast
  have 11: "digitalRead estop_pressed E_STOP_PIN (state_of (extendSequence 2 estop_pressed power_on)) = LOW"
    by simp
  have 12: "moves (LOW, LOW) (trace (state_of (retractSequence (limits_after 64000 130000) power_on))) =
     [(X_STEP_PIN, HIGH), (X_STEP_PIN, HIGH), (Y_STEP_PIN, HIGH), (Y_STEP_PIN, HIGH)]"
    "state_changes (trace (state_of (retractSequence (limits_after 64000 130000) power_on))) = [STATE_READY]"
    by (simp_all add: retract_run DIR_X_IN_def DIR_Y_DOWN_def numeral_2_eq_2)
  have 13: "\<exists>c d. effect power_on (retractSequence (limits_after 64000 130000) power_on)
       (replicate c (X_STEP_PIN, DIR_X_IN) @ replicate d (Y_STEP_PIN, DIR_Y_DOWN)) [STATE_READY] \<and>
       int c < 7776 \<and> int d < 4128"
    using r1 by (simp add: retract_run maxSteps_value) blast
  have 14: "\<exists>c d. effect power_on (retractSequence nothing_closes power_on)
       (replicate c (X_STEP_PIN, DIR_X_IN) @ replicate d (Y_STEP_PIN, DIR_Y_DOWN)) [STATE_STOPPED] \<and>
       (int c = 7776 \<or> int d = 4128)"
    using r2 by (simp add: retract_cap maxSteps_value) (rule exI[of _ 7776], rule exI[of _ 0], simp)
  show ?thesis
    using 1 homing_moves 3 4 5 6 extend_cycle_moves 8 9 10 11 12 13 14 by blast
qed

section \<open>The state machine\<close>

subsection \<open>Setup and the main loop\<close>

lemma quiet_Nil [simp]: "quiet []"
  by (simp add: quiet_def)

lemma quietD:
  assumes "quiet pre"
  shows "moves d pre = []" "state_changes pre = []" "pulse_states st pre = []"
  using assms unfolding quiet_def by blast+

lemma quiet_append: "quiet a \<Longrightarrow> quiet b \<Longrightarrow> quiet (a @ b)"
  unfolding quiet_def by (simp add: quietD del: split_paired_All)

lemma quiet_Wait [simp]: "quiet [Wait n]"
  by (simp add: quiet_def)

lemma run_logI:
  "trace (state_of r) = trace s @ new \<Longrightarrow> (\<And>d. moves d new = ms) \<Longrightarrow> state_changes new = cs \<Longrightarrow>
   (\<And>st. pulse_states st new = replicate (length ms) tag) \<Longrightarrow>
   currentState (state_of r) = last (currentState s # cs) \<Longrightarrow> run_log s r ms cs tag"
  unfolding run_log_def by blast

lemma run_log_tagged:
  assumes "effect s1 r ms cs" "trace s1 = trace s @ pre @ [SetState tag]" "quiet pre" "currentState s1 = tag"
  shows "run_log s r ms (tag # cs) tag"
proof -
  from assms(1) obtain n where n: "trace (state_of r) = trace s1 @ n" "\<And>d. moves d n = ms" "state_changes n = cs"
    "\<And>st. pulse_states st n = replicate (length ms) st" "currentState (state_of r) = last (currentState s1 # cs)"
    unfolding effect_def by auto
  note q = quietD[OF assms(3)]
  show ?thesis
    by (rule run_logI[of _ _ "pre @ [SetState tag] @ n"]) (simp_all add: n q assms(2,4))
qed

lemma run_log_quiet:
  assumes "effect s1 r [] cs" "trace s1 = trace s @ pre" "quiet pre" "currentState s1 = currentState s"
  shows "run_log s r [] cs tag"
proof -
  from assms(1) obtain n where n: "trace (state_of r) = trace s1 @ n" "\<And>d. moves d n = []" "state_changes n = cs"
    "\<And>st. pulse_states st n = []" "currentState (state_of r) = last (currentState s1 # cs)"
    unfolding effect_def by auto
  note q = quietD[OF assms(3)]
  show ?thesis
    by (rule run_logI[of _ _ "pre @ n"]) (simp_all add: n q assms(2,4))
qed

lemma run_log_delay:
  assumes "run_log s r ms cs tag"
  shows "run_log s (andThen r (\<lambda>u s4. Return () (delay 10 s4))) ms cs tag"
proof (cases r)
  case (Return u s4)
  from assms obtain n where n: "trace s4 = trace s @ n" "\<And>d. moves d n = ms" "state_changes n = cs"
    "\<And>st. pulse_states st n = replicate (length ms) tag" "currentState s4 = last (currentState s # cs)"
    unfolding run_log_def Return by auto
  show ?thesis
    by (rule run_logI[of _ _ "n @ [Wait 10000]"]) (simp_all add: Return andThen_def n)
next
  case (Halt s4)
  with assms show ?thesis by (simp add: andThen_def run_log_def)
next
  case (Unfinished s4)
  with assms show ?thesis by (simp add: andThen_def run_log_def)
qed

lemma checkMotorIdle_fields [simp]:
  "currentState (checkMotorIdle s) = currentState s"
  "isHomed (checkMotorIdle s) = isHomed s"
  "clock (checkMotorIdle s) = clock s"
  by (simp_all add: checkMotorIdle_def disableMotors_def digitalWrite_def)

lemma checkMotorIdle_trace:
  "\<exists>pre. trace (checkMotorIdle s) = trace s @ pre \<and> quiet pre"
  by (simp add: checkMotorIdle_def disableMotors_def quiet_def)

lemma waitRelease_isHomed:
  "waitRelease n e s = Return u s' \<Longrightarrow> isHomed s' = isHomed s"
  by (induction n arbitrary: s) (auto simp: delay_def delayMicroseconds_def split: if_splits)

lemma waitRelease_quiet:
  "\<exists>w. trace (state_of (waitRelease n e s)) = trace s @ w \<and> quiet w \<and>
       currentState (state_of (waitRelease n e s)) = currentState s"
  using waitRelease_eff[of s n e] unfolding effect_def quiet_def by auto

lemma finished_cases: "finished r = [] \<or> finished r = [STATE_READY] \<or> finished r = [STATE_STOPPED]"
  by (cases r) simp_all

lemma finished_andThen_delay [simp]:
  "finished (andThen r (\<lambda>u s4. Return () (delay 10 s4))) = finished r"
  by (cases r) (simp_all add: andThen_def)

lemma loop_log:
  "\<exists>ms cs. run_log s (loop fuel e s) ms cs (if isHomed s then STATE_EXTENDING else STATE_HOMING) \<and>
     (cs = [] \<or> cs = [STATE_STOPPED] \<or> cs = [STATE_READY] \<or>
      cs = (if isHomed s then STATE_EXTENDING else STATE_HOMING) # finished (loop fuel e s))"
proof (cases "digitalRead e E_STOP_PIN s = LOW")
  case True
  then have l: "loop fuel e s = emergencyStop s"
    by (simp add: loop_def)
  have "run_log s (emergencyStop s) [] [STATE_STOPPED] (if isHomed s then STATE_EXTENDING else STATE_HOMING)"
    by (rule run_log_quiet[OF effect_emergencyStop, where pre = "[]"]) simp_all
  then show ?thesis
    unfolding l by blast
next
  case False
  let ?tag = "if isHomed s then STATE_EXTENDING else STATE_HOMING"
  let ?s1 = "checkMotorIdle s"
  let ?body = "case currentState ?s1 of
             STATE_READY \<Rightarrow>
               (if digitalRead e COOL_EN_PIN ?s1 = LOW then
                  (let s2 = delay 50 ?s1 in
                   if digitalRead e COOL_EN_PIN s2 = LOW then
                     andThen (waitRelease fuel e s2) (\<lambda>u s3.
                       if \<not> isHomed s3 then performHoming fuel e (setState STATE_HOMING s3)
                       else extendSequence fuel e (setState STATE_EXTENDING s3))
                   else Return () s2)
                else Return () ?s1)
           | STATE_EXTENDING \<Rightarrow> Return () (setState STATE_READY ?s1)
           | _ \<Rightarrow> Return () ?s1"
  have l: "loop fuel e s = andThen ?body (\<lambda>u s4. Return () (delay 10 s4))"
    using False by (simp add: loop_def Let_def)
  from checkMotorIdle_trace[of s] obtain pre where pre: "trace ?s1 = trace s @ pre" "quiet pre"
    by blast
  have skip: "run_log s (Return () ?s1) [] [] ?tag"
    by (rule run_log_quiet[OF effect_here(1) pre]) simp
  have "\<exists>ms cs. run_log s ?body ms cs ?tag \<and>
     (cs = [] \<or> cs = [STATE_STOPPED] \<or> cs = [STATE_READY] \<or> cs = ?tag # finished ?body)"
  proof (cases "currentState s")
    case STATE_READY
    show ?thesis
    proof (cases "digitalRead e COOL_EN_PIN ?s1 = LOW")
      case nopress: False
      then have b: "?body = Return () ?s1"
        using STATE_READY by simp
      show ?thesis
        unfolding b using skip by blast
    next
      case press: True
      let ?s2 = "delay 50 ?s1"
      have t2: "trace ?s2 = trace s @ (pre @ [Wait 50000])" and q2: "quiet (pre @ [Wait 50000])"
        using pre by (simp_all add: quiet_append)
      show ?thesis
      proof (cases "digitalRead e COOL_EN_PIN ?s2 = LOW")
        case False
        then have b: "?body = Return () ?s2"
          using STATE_READY press by (simp add: Let_def)
        have "run_log s (Return () ?s2) [] [] ?tag"
          by (rule run_log_quiet[OF effect_here(1) t2 q2]) simp
        then show ?thesis
          unfolding b by blast
      next
        case True
        let ?k = "\<lambda>(u::unit) s3.
                       if \<not> isHomed s3 then performHoming fuel e (setState STATE_HOMING s3)
                       else extendSequence fuel e (setState STATE_EXTENDING s3)"
        have b: "?body = andThen (waitRelease fuel e ?s2) ?k"
          using STATE_READY press True by (simp add: Let_def)
        from waitRelease_quiet[of fuel e ?s2] obtain w where
          w: "trace (state_of (waitRelease fuel e ?s2)) = trace ?s2 @ w" "quiet w"
            "currentState (state_of (waitRelease fuel e ?s2)) = currentState ?s2"
          by blast
        show ?thesis
        proof (cases "waitRelease fuel e ?s2")
          case (Halt s3)
          with waitRelease_eff[of ?s2 fuel e] show ?thesis
            by simp
        next
          case (Unfinished s3)
          then have b': "?body = Unfinished s3"
            unfolding b by (simp add: andThen_def)
          have t3: "trace s3 = trace s @ ((pre @ [Wait 50000]) @ w)"
            using w(1) t2 Unfinished by simp
          note q3 = quiet_append[OF q2 w(2)]
          have "run_log s (Unfinished s3) [] [] ?tag"
            apply (rule run_log_quiet[OF effect_here(2) t3 q3])
            using w(3) Unfinished by simp
          then show ?thesis
            unfolding b' by blast
        next
          case (Return u s3)
          have t3: "trace s3 = trace s @ ((pre @ [Wait 50000]) @ w)"
            using w(1) t2 Return by simp
          note q3 = quiet_append[OF q2 w(2)]
          have h3: "isHomed s3 = isHomed s"
            using waitRelease_isHomed[OF Return] by (simp add: delay_def delayMicroseconds_def)
          show ?thesis
          proof (cases "isHomed s")
            case False
            let ?r = "performHoming fuel e (setState STATE_HOMING s3)"
            have b': "?body = ?r"
              unfolding b using Return h3 False by (simp add: andThen_def)
            from performHoming_eff[of "setState STATE_HOMING s3" fuel e]
            obtain ms where ms: "effect (setState STATE_HOMING s3) ?r ms (finished ?r)"
              by blast
            have "run_log s ?r ms (STATE_HOMING # finished ?r) STATE_HOMING"
              by (rule run_log_tagged[OF ms, where s = s and pre = "(pre @ [Wait 50000]) @ w"]) (simp_all add: t3 q3 del: append_assoc)
            then show ?thesis
              unfolding b' using False by auto
          next
            case True
            let ?r = "extendSequence fuel e (setState STATE_EXTENDING s3)"
            have b': "?body = ?r"
              unfolding b using Return h3 True by (simp add: andThen_def)
            from extendSequence_eff[of "setState STATE_EXTENDING s3" fuel e]
            obtain ms where ms: "effect (setState STATE_EXTENDING s3) ?r ms (finished ?r)"
              by blast
            have "run_log s ?r ms (STATE_EXTENDING # finished ?r) STATE_EXTENDING"
              by (rule run_log_tagged[OF ms, where s = s and pre = "(pre @ [Wait 50000]) @ w"]) (simp_all add: t3 q3 del: append_assoc)
            then show ?thesis
              unfolding b' using True by auto
          qed
        qed
      qed
    qed
  next
    case STATE_EXTENDING
    then have b: "?body = Return () (setState STATE_READY ?s1)"
      by simp
    have e: "effect ?s1 (Return () (setState STATE_READY ?s1)) [] [STATE_READY]"
      by (rule effectI[of _ _ "[SetState STATE_READY]"]) simp_all
    have "run_log s (Return () (setState STATE_READY ?s1)) [] [STATE_READY] ?tag"
      by (rule run_log_quiet[OF e pre]) simp
    then show ?thesis
      unfolding b by blast
  next
    case STATE_INIT
    then have b: "?body = Return () ?s1" by simp
    show ?thesis unfolding b using skip by blast
  next
    case STATE_HOMING
    then have b: "?body = Return () ?s1" by simp
    show ?thesis unfolding b using skip by blast
  next
    case STATE_RETRACTING
    then have b: "?body = Return () ?s1" by simp
    show ?thesis unfolding b using skip by blast
  next
    case STATE_STOPPED
    then have b: "?body = Return () ?s1" by simp
    show ?thesis unfolding b using skip by blast
  next
    case STATE_TEST_MODE
    then have b: "?body = Return () ?s1" by simp
    show ?thesis unfolding b using skip by blast
  qed
  then obtain ms cs where mc: "run_log s ?body ms cs ?tag"
      "cs = [] \<or> cs = [STATE_STOPPED] \<or> cs = [STATE_READY] \<or> cs = ?tag # finished ?body"
    by blast
  show ?thesis
    unfolding l
    apply (rule exI[of _ ms], rule exI[of _ cs])
    using run_log_delay[OF mc(1)] mc(2) by simp
qed

lemma last_state_changes: "last (last (a # xs) # ys) = last (a # xs @ ys)"
  by (cases ys) simp_all

lemma tracked_run_log:
  assumes "tracked s" "run_log s r ms cs tag"
    "set cs \<subseteq> {STATE_HOMING, STATE_READY, STATE_EXTENDING, STATE_STOPPED}"
    "tag = STATE_HOMING \<or> tag = STATE_EXTENDING"
  shows "tracked (state_of r)"
proof -
  from assms(2) obtain n where n: "trace (state_of r) = trace s @ n" "state_changes n = cs"
    "\<And>st. pulse_states st n = replicate (length ms) tag" "currentState (state_of r) = last (currentState s # cs)"
    unfolding run_log_def by auto
  from assms(1) have t: "currentState s = last (STATE_INIT # state_changes (trace s))"
    "set (state_changes (trace s)) \<subseteq> {STATE_HOMING, STATE_READY, STATE_EXTENDING, STATE_STOPPED}"
    "set (pulse_states STATE_INIT (trace s)) \<subseteq> {STATE_HOMING, STATE_EXTENDING}"
    by (simp_all add: tracked_def)
  have 1: "currentState (state_of r) = last (STATE_INIT # state_changes (trace (state_of r)))"
    unfolding n(1,4) t(1) state_changes_append n(2) by (rule last_state_changes)
  have 2: "set (state_changes (trace (state_of r))) \<subseteq> {STATE_HOMING, STATE_READY, STATE_EXTENDING, STATE_STOPPED}"
    unfolding n(1) state_changes_append n(2) using t(2) assms(3) by simp
  have 3: "set (pulse_states STATE_INIT (trace (state_of r))) \<subseteq> {STATE_HOMING, STATE_EXTENDING}"
    unfolding n(1) pulse_states_append n(3) using t(3) assms(4) by auto
  show ?thesis
    unfolding tracked_def using 1 2 3 by blast
qed

lemma tracked_loop: "tracked s \<Longrightarrow> tracked (state_of (loop fuel e s))"
proof -
  assume t: "tracked s"
  from loop_log[of s fuel e] obtain ms cs where
    l: "run_log s (loop fuel e s) ms cs (if isHomed s then STATE_EXTENDING else STATE_HOMING)"
      "cs = [] \<or> cs = [STATE_STOPPED] \<or> cs = [STATE_READY] \<or>
       cs = (if isHomed s then STATE_EXTENDING else STATE_HOMING) # finished (loop fuel e s)"
    by blast
  have c: "set cs \<subseteq> {STATE_HOMING, STATE_READY, STATE_EXTENDING, STATE_STOPPED}"
    using l(2) finished_cases[of "loop fuel e s"] by (cases "isHomed s") auto
  show ?thesis
    by (rule tracked_run_log[OF t l(1) c]) simp
qed

lemma tracked_loops: "tracked s \<Longrightarrow> tracked (state_of (loops fuel n e s))"
proof (induction n arbitrary: s)
  case 0
  then show ?case by simp
next
  case (Suc n)
  show ?case
  proof (cases "loop fuel e s")
    case (Return u s')
    with tracked_loop[OF Suc.prems, of fuel e] have "tracked s'"
      by simp
    from Suc.IH[OF this] show ?thesis
      using Return by (simp add: andThen_def)
  next
    case (Halt s')
    with tracked_loop[OF Suc.prems, of fuel e] show ?thesis
      by (simp add: andThen_def)
  next
    case (Unfinished s')
    with tracked_loop[OF Suc.prems, of fuel e] show ?thesis
      by (simp add: andThen_def)
  qed
qed

lemma setup_fn_power_on:
  "setup_fn fuel e power_on =
     performHoming fuel e (setState STATE_HOMING
       (delay 100 ((digitalWrite X_ENABLE_PIN HIGH (digitalWrite Y_ENABLE_PIN HIGH power_on))\<lparr>motorsEnabled := False\<rparr>)))"
  by (simp add: setup_fn_def TEST_MODE_def AUTO_HOMING_def Let_def)

lemma tracked_setup: "tracked (state_of (setup_fn fuel e power_on))"
proof -
  let ?s4 = "delay 100 ((digitalWrite X_ENABLE_PIN HIGH (digitalWrite Y_ENABLE_PIN HIGH power_on))\<lparr>motorsEnabled := False\<rparr>)"
  let ?r = "performHoming fuel e (setState STATE_HOMING ?s4)"
  from performHoming_eff[of "setState STATE_HOMING ?s4" fuel e]
  obtain ms where ms: "effect (setState STATE_HOMING ?s4) ?r ms (finished ?r)"
    by blast
  have l: "run_log power_on ?r ms (STATE_HOMING # finished ?r) STATE_HOMING"
    by (rule run_log_tagged[OF ms, where s = power_on
          and pre = "[Write Y_ENABLE_PIN HIGH, Write X_ENABLE_PIN HIGH, Wait 100000]"])
       (simp_all add: quiet_def)
  have t0: "tracked power_on"
    by (simp add: tracked_def power_on_def)
  have c: "set (STATE_HOMING # finished ?r) \<subseteq> {STATE_HOMING, STATE_READY, STATE_EXTENDING, STATE_STOPPED}"
    using finished_cases[of ?r] by auto
  show ?thesis
    unfolding setup_fn_power_on
    by (rule tracked_run_log[OF t0 l c]) simp
qed

lemma tracked_sketch: "tracked (state_of (sketch fuel n e))"
proof (cases "setup_fn fuel e power_on")
  case (Return u s)
  with tracked_setup[of fuel e] have "tracked s"
    by simp
  from tracked_loops[OF this, of fuel n e] show ?thesis
    using Return by (simp add: sketch_def andThen_def)
next
  case (Halt s)
  with tracked_setup[of fuel e] show ?thesis
    by (simp add: sketch_def andThen_def)
next
  case (Unfinished s)
  with tracked_setup[of fuel e] show ?thesis
    by (simp add: sketch_def andThen_def)
qed

lemma last_in_set: "set xs \<subseteq> A \<Longrightarrow> a \<in> A \<Longrightarrow> last (a # xs) \<in> A"
  by (induction xs arbitrary: a) auto

subsection \<open>Test mode\<close>

lemma assigns_withinI:
  "trace (state_of r) = trace s @ new \<Longrightarrow> set (state_changes new) \<subseteq> A \<Longrightarrow>
   currentState (state_of r) = last (currentState s # state_changes new) \<Longrightarrow> assigns_within A s r"
  unfolding assigns_within_def by blast

lemma assigns_effect:
  assumes "effect s r ms cs" "set cs \<subseteq> A"
  shows "assigns_within A s r"
  using assms unfolding effect_def assigns_within_def by auto

lemma assigns_andThen:
  assumes "assigns_within A s r" "\<And>a s1. r = Return a s1 \<Longrightarrow> assigns_within A s1 (k a s1)"
  shows "assigns_within A s (andThen r k)"
proof (cases r)
  case (Return a s1)
  from assms(1) Return obtain n1 where 1: "trace s1 = trace s @ n1" "set (state_changes n1) \<subseteq> A"
    "currentState s1 = last (currentState s # state_changes n1)"
    unfolding assigns_within_def by auto
  from assms(2)[OF Return] obtain n2 where 2: "trace (state_of (k a s1)) = trace s1 @ n2"
    "set (state_changes n2) \<subseteq> A" "currentState (state_of (k a s1)) = last (currentState s1 # state_changes n2)"
    unfolding assigns_within_def by auto
  show ?thesis
    by (rule assigns_withinI[of _ _ "n1 @ n2"])
       (use 1 2 Return in \<open>auto simp: andThen_def last_state_changes\<close>)
next
  case (Halt s1)
  with assms(1) show ?thesis by (simp add: andThen_def assigns_within_def)
next
  case (Unfinished s1)
  with assms(1) show ?thesis by (simp add: andThen_def assigns_within_def)
qed

lemma assigns_after:
  assumes "assigns_within A s1 r" "trace s1 = trace s @ pre" "state_changes pre = []"
    "currentState s1 = currentState s"
  shows "assigns_within A s r"
proof -
  from assms(1) obtain n where n: "trace (state_of r) = trace s1 @ n" "set (state_changes n) \<subseteq> A"
    "currentState (state_of r) = last (currentState s1 # state_changes n)"
    unfolding assigns_within_def by auto
  show ?thesis
    by (rule assigns_withinI[of _ _ "pre @ n"]) (use n assms(2-4) in auto)
qed

lemma assigns_Return:
  assumes "trace s1 = trace s @ pre" "state_changes pre = []" "currentState s1 = currentState s"
  shows "assigns_within A s (Return a s1)"
  by (rule assigns_withinI[of _ _ pre]) (simp_all add: assms)

lemma assigns_here [simp]: "assigns_within A s (Return a s)" "assigns_within A s (Unfinished s)"
  by (rule assigns_withinI[of _ _ "[]"]; simp)+

lemma measure_loop_run:
  "\<exists>j. measure_loop e stepPin limitPin steps s = pulsesFrom stepPin (\<lambda>i. TEST_SPEED_DELAY) steps j s"
proof (induction e stepPin limitPin steps s rule: measure_loop.induct)
  case (1 e stepPin limitPin steps s)
  show ?case
  proof (cases "digitalRead e limitPin s = HIGH \<and> steps < 100000")
    case True
    from "1.IH"[OF True] obtain j where
      j: "measure_loop e stepPin limitPin (steps + 1) (stepPulse stepPin TEST_SPEED_DELAY s) =
          pulsesFrom stepPin (\<lambda>i. TEST_SPEED_DELAY) (steps + 1) j (stepPulse stepPin TEST_SPEED_DELAY s)"
      by blast
    have "measure_loop e stepPin limitPin steps s = pulsesFrom stepPin (\<lambda>i. TEST_SPEED_DELAY) steps (Suc j) s"
      using True j by (subst measure_loop.simps) simp
    then show ?thesis by blast
  next
    case False
    then have "measure_loop e stepPin limitPin steps s = pulsesFrom stepPin (\<lambda>i. TEST_SPEED_DELAY) steps 0 s"
      by (subst measure_loop.simps) auto
    then show ?thesis by blast
  qed
qed

lemma waitSerial_assigns: "assigns_within A s (waitSerial n e s)"
proof (induction n arbitrary: s)
  case 0
  show ?case by simp
next
  case (Suc n)
  show ?case
  proof (cases "Serial_available e s = 0")
    case True
    have "assigns_within A s (waitSerial n e (delay 10 s))"
      by (rule assigns_after[where pre = "[Wait 10000]" and ?s1.0 = "delay 10 s"]) (simp_all add: Suc)
    with True show ?thesis by simp
  next
    case False
    then show ?thesis by simp
  qed
qed

lemma watch_loop_assigns: "assigns_within A s (watch_loop n e s)"
proof (induction n arbitrary: s)
  case 0
  show ?case by simp
next
  case (Suc n)
  show ?case
  proof (cases "Serial_available e s = 0")
    case True
    have "assigns_within A s (watch_loop n e (delay 200 s))"
      by (rule assigns_after[where pre = "[Wait 200000]" and ?s1.0 = "delay 200 s"]) (simp_all add: Suc)
    with True show ?thesis by simp
  next
    case False
    then show ?thesis by simp
  qed
qed

lemma Serial_fields [simp]:
  "trace (snd (Serial_read e s)) = trace s" "currentState (snd (Serial_read e s)) = currentState s"
  "trace (Serial_flush e s) = trace s" "currentState (Serial_flush e s) = currentState s"
  by (simp_all add: Serial_read_def Serial_flush_def)

lemma jog_assigns:
  "assigns_within A s (doSteps stepPin n d (delay 50 (digitalWrite dirPin dir s)))"
  unfolding doSteps_run
  by (rule assigns_Return[where pre = "[Write dirPin dir, Wait 50000, Write Y_ENABLE_PIN LOW, Write X_ENABLE_PIN LOW,
        Wait 10000] @ pulse_train stepPin (doSteps_delay n d) 0 (nat n)"]) simp_all

lemma measure_assigns:
  "assigns_within A s (Return () (measure_loop e stepPin limitPin 0 (delay 50 (digitalWrite dirPin dir s))))"
proof -
  from measure_loop_run[of e stepPin limitPin 0 "delay 50 (digitalWrite dirPin dir s)"]
  obtain j where j: "measure_loop e stepPin limitPin 0 (delay 50 (digitalWrite dirPin dir s)) =
      pulsesFrom stepPin (\<lambda>i. TEST_SPEED_DELAY) 0 j (delay 50 (digitalWrite dirPin dir s))"
    by blast
  show ?thesis
    unfolding j
    by (rule assigns_Return[where pre = "[Write dirPin dir, Wait 50000] @ pulse_train stepPin (\<lambda>i. TEST_SPEED_DELAY) 0 j"])
       simp_all
qed

lemma sequences_assign:
  "assigns_within {STATE_READY, STATE_STOPPED} s (performHoming fuel e s)"
  "assigns_within {STATE_READY, STATE_STOPPED} s (extendSequence fuel e s)"
  "assigns_within {STATE_READY, STATE_STOPPED} s (retractSequence e s)"
proof -
  have f: "set (finished r) \<subseteq> {STATE_READY, STATE_STOPPED}" for r :: "unit result"
    using finished_cases[of r] by auto
  from performHoming_eff[of s fuel e] show "assigns_within {STATE_READY, STATE_STOPPED} s (performHoming fuel e s)"
    using assigns_effect[OF _ f] by blast
  from extendSequence_eff[of s fuel e] show "assigns_within {STATE_READY, STATE_STOPPED} s (extendSequence fuel e s)"
    using assigns_effect[OF _ f] by blast
  from retractSequence_eff[of s e] show "assigns_within {STATE_READY, STATE_STOPPED} s (retractSequence e s)"
    using assigns_effect[OF _ f] by blast
qed

lemma measure_command_assigns:
  "assigns_within A s1
     (let (axis, s2) = Serial_read e s1;
          s3 = Serial_flush e s2
      in if axis = CHR ''x'' \<or> axis = CHR ''X'' then
           Return () (measure_loop e X_STEP_PIN X_LIMIT_PIN 0 (delay 50 (digitalWrite X_DIR_PIN DIR_X_IN s3)))
         else if axis = CHR ''y'' \<or> axis = CHR ''Y'' then
           Return () (measure_loop e Y_STEP_PIN Y_LIMIT_PIN 0 (delay 50 (digitalWrite Y_DIR_PIN DIR_Y_DOWN s3)))
         else Return () s3)"
proof -
  obtain axis s2 where r: "Serial_read e s1 = (axis, s2)"
    by (cases "Serial_read e s1")
  let ?s3 = "Serial_flush e s2"
  have t: "trace ?s3 = trace s1 @ []" "currentState ?s3 = currentState s1"
    using Serial_fields(1,2)[of e s1] r by simp_all
  have "assigns_within A s1 (Return () (measure_loop e p l 0 (delay 50 (digitalWrite dp dir ?s3))))" for p l dp dir
    by (rule assigns_after[OF measure_assigns t(1) _ t(2)]) simp
  moreover have "assigns_within A s1 (Return () ?s3)"
    by (rule assigns_Return[OF t(1) _ t(2)]) simp
  ultimately show ?thesis
    unfolding r by (simp add: Let_def)
qed

lemma testMode_command_assigns:
  "assigns_within {STATE_READY, STATE_STOPPED} s (testMode_command fuel e cmd s)"
proof -
  have w: "assigns_within {STATE_READY, STATE_STOPPED} s
      (andThen (watch_loop fuel e s) (\<lambda>u s1. Return () (Serial_flush e s1)))"
    by (rule assigns_andThen[OF watch_loop_assigns]) (rule assigns_Return[where pre = "[]"], simp_all)
  have m: "assigns_within {STATE_READY, STATE_STOPPED} s
      (andThen (waitSerial fuel e s) (\<lambda>u s1.
          let (axis, s2) = Serial_read e s1;
              s3 = Serial_flush e s2
          in if axis = CHR ''x'' \<or> axis = CHR ''X'' then
               Return () (measure_loop e X_STEP_PIN X_LIMIT_PIN 0 (delay 50 (digitalWrite X_DIR_PIN DIR_X_IN s3)))
             else if axis = CHR ''y'' \<or> axis = CHR ''Y'' then
               Return () (measure_loop e Y_STEP_PIN Y_LIMIT_PIN 0 (delay 50 (digitalWrite Y_DIR_PIN DIR_Y_DOWN s3)))
             else Return () s3))"
    by (rule assigns_andThen[OF waitSerial_assigns]) (rule measure_command_assigns)
  show ?thesis
    unfolding testMode_command_def
    using w m by (simp add: jog_assigns sequences_assign)
qed

lemma testMode_loop_assigns:
  "assigns_within {STATE_READY, STATE_STOPPED} s (testMode_loop fuel n e s)"
proof (induction n arbitrary: s)
  case 0
  show ?case by simp
next
  case (Suc n)
  let ?A = "{STATE_READY, STATE_STOPPED}"
  show ?case
  proof (cases "digitalRead e E_STOP_PIN s = LOW")
    case True
    then have "testMode_loop fuel (Suc n) e s = emergencyStop s"
      by (simp add: checkEStop_simps andThen_def emergencyStop_def)
    then show ?thesis
      using assigns_effect[OF effect_emergencyStop, of ?A s] by simp
  next
    case False
    let ?s2 = "checkMotorIdle s"
    let ?cmd = "if Serial_available e ?s2 > 0 then
              (let (cmd, s3) = Serial_read e ?s2;
                   s4 = Serial_flush e s3
               in testMode_command fuel e cmd s4)
            else Return () ?s2"
    have l: "testMode_loop fuel (Suc n) e s = andThen ?cmd (\<lambda>u s5. testMode_loop fuel n e (delay 10 s5))"
      using False by (simp add: checkEStop_simps andThen_def Let_def)
    from checkMotorIdle_trace[of s] obtain pre where pre: "trace ?s2 = trace s @ pre" "quiet pre"
      by blast
    obtain cmd s3 where r: "Serial_read e ?s2 = (cmd, s3)"
      by (cases "Serial_read e ?s2")
    let ?s4 = "Serial_flush e s3"
    have t: "trace ?s4 = trace ?s2 @ []" "currentState ?s4 = currentState ?s2"
      using Serial_fields(1,2)[of e ?s2] r by simp_all
    have c: "assigns_within ?A ?s2 (testMode_command fuel e cmd ?s4)"
      by (rule assigns_after[OF testMode_command_assigns t(1) _ t(2)]) simp
    have "assigns_within ?A ?s2 ?cmd"
      using c r by (simp add: Let_def)
    then have 1: "assigns_within ?A s ?cmd"
      by (rule assigns_after[OF _ pre(1) quietD(2)[OF pre(2)]]) simp
    have 2: "assigns_within ?A s5 (testMode_loop fuel n e (delay 10 s5))" for s5
      by (rule assigns_after[where pre = "[Wait 10000]" and ?s1.0 = "delay 10 s5"]) (simp_all add: Suc)
    show ?thesis
      unfolding l by (rule assigns_andThen[OF 1 2])
  qed
qed

lemma test_mode_entry_tracked [simp]:
  "currentState test_mode_entry = STATE_TEST_MODE" "state_changes (trace test_mode_entry) = [STATE_TEST_MODE]"
  by (simp_all add: test_mode_entry_def)

lemma test_mode_entry_fields [simp]:
  "clock test_mode_entry = 100000" "rx_taken test_mode_entry = 0" "motorsEnabled test_mode_entry = False"
  "trace test_mode_entry = [Write Y_ENABLE_PIN HIGH, Write X_ENABLE_PIN HIGH, Wait 100000, SetState STATE_TEST_MODE]"
  "pin_out test_mode_entry X_ENABLE_PIN = HIGH"
  by (simp_all add: test_mode_entry_def power_on_def delay_def delayMicroseconds_def digitalWrite_def setState_def)

lemma pulse_states_subset: "set (pulse_states st es) \<subseteq> insert st (set (state_changes es))"
  by (induction st es rule: pulse_states.induct) auto

lemma testMode_never_retracting:
  "currentState (state_of (testMode fuel e test_mode_entry)) \<noteq> STATE_RETRACTING \<and>
   STATE_RETRACTING \<notin> set (state_changes (trace (state_of (testMode fuel e test_mode_entry)))) \<and>
   STATE_RETRACTING \<notin> set (pulse_states STATE_INIT (trace (state_of (testMode fuel e test_mode_entry)))) \<and>
   STATE_EXTENDING \<notin> set (state_changes (trace (state_of (testMode fuel e test_mode_entry)))) \<and>
   STATE_EXTENDING \<notin> set (pulse_states STATE_INIT (trace (state_of (testMode fuel e test_mode_entry))))"
proof -
  from testMode_loop_assigns[of test_mode_entry fuel fuel e]
  obtain new where new: "trace (state_of (testMode fuel e test_mode_entry)) = trace test_mode_entry @ new"
    "set (state_changes new) \<subseteq> {STATE_READY, STATE_STOPPED}"
    "currentState (state_of (testMode fuel e test_mode_entry)) = last (STATE_TEST_MODE # state_changes new)"
    unfolding assigns_within_def testMode_def by auto
  have "last (STATE_TEST_MODE # state_changes new) \<in> {STATE_TEST_MODE, STATE_READY, STATE_STOPPED}"
    by (rule last_in_set) (use new(2) in auto)
  then have 1: "currentState (state_of (testMode fuel e test_mode_entry)) \<noteq> STATE_RETRACTING"
    unfolding new(3) by auto
  have sc: "set (state_changes (trace (state_of (testMode fuel e test_mode_entry)))) \<subseteq>
      {STATE_TEST_MODE, STATE_READY, STATE_STOPPED}"
    unfolding new(1) using new(2) by auto
  have ps: "set (pulse_states STATE_INIT (trace (state_of (testMode fuel e test_mode_entry)))) \<subseteq>
      {STATE_INIT, STATE_TEST_MODE, STATE_READY, STATE_STOPPED}"
    using pulse_states_subset[of STATE_INIT "trace (state_of (testMode fuel e test_mode_entry))"] sc by auto
  show ?thesis
    using 1 sc ps by auto
qed

subsection \<open>The values of \<open>currentState\<close>\<close>

text \<open>
  Claim C10, amended. \<open>currentState\<close> is never \<open>STATE_RETRACTING\<close>: in every run of the sketch
  (\<open>setup\<close>, then any number of calls of \<open>loop\<close>) the final value is not \<open>STATE_RETRACTING\<close>, no
  assignment in the log assigns it, and no step pulse is issued while it holds; nor is it assigned
  or held at a pulse in a build with \<open>TEST_MODE\<close> set, where \<open>setup\<close> hands over to \<open>testMode\<close>.
  A call of \<open>loop\<close> in a homed state issues all its pulses, those of the extension and those of
  the retraction, while \<open>currentState\<close> is \<open>STATE_EXTENDING\<close>, and assigns nothing in between:
  after \<open>STATE_EXTENDING\<close> the only assignment is the one that ends the cycle, \<open>STATE_READY\<close> when
  the retraction completes (\<open>STATE_STOPPED\<close> when the cycle is stopped). \<open>extendSequence\<close> and
  \<open>retractSequence\<close> themselves issue every pulse in the state they are entered with and assign
  \<open>currentState\<close> exactly once, at their end; the test-mode commands \<open>e\<close> and \<open>r\<close> are calls of
  these two and nothing else, so a cycle started from the test mode runs in the state the command
  finds: under \<open>testMode\<close>, \<open>STATE_EXTENDING\<close> is never assigned and no pulse is issued in it.
\<close>

theorem never_retracting:
  "currentState (state_of (sketch fuel n e)) \<noteq> STATE_RETRACTING \<and>
   STATE_RETRACTING \<notin> set (state_changes (trace (state_of (sketch fuel n e)))) \<and>
   STATE_RETRACTING \<notin> set (pulse_states STATE_INIT (trace (state_of (sketch fuel n e)))) \<and>
   currentState (state_of (testMode fuel e test_mode_entry)) \<noteq> STATE_RETRACTING \<and>
   STATE_RETRACTING \<notin> set (state_changes (trace (state_of (testMode fuel e test_mode_entry)))) \<and>
   STATE_RETRACTING \<notin> set (pulse_states STATE_INIT (trace (state_of (testMode fuel e test_mode_entry)))) \<and>
   STATE_EXTENDING \<notin> set (state_changes (trace (state_of (testMode fuel e test_mode_entry)))) \<and>
   STATE_EXTENDING \<notin> set (pulse_states STATE_INIT (trace (state_of (testMode fuel e test_mode_entry)))) \<and>
   (\<exists>ms cs. run_log s (loop fuel e s) ms cs (if isHomed s then STATE_EXTENDING else STATE_HOMING) \<and>
      (cs = [] \<or> cs = [STATE_STOPPED] \<or> cs = [STATE_READY] \<or>
       cs = (if isHomed s then STATE_EXTENDING else STATE_HOMING) # finished (loop fuel e s))) \<and>
   (\<exists>ms. effect s (extendSequence fuel e s) ms (finished (extendSequence fuel e s))) \<and>
   (\<exists>ms. effect s (retractSequence e s) ms (finished (retractSequence e s))) \<and>
   testMode_command fuel e CHR ''e'' s = extendSequence fuel e s \<and>
   testMode_command fuel e CHR ''r'' s = retractSequence e s"
proof -
  let ?t = "state_of (sketch fuel n e)"
  from tracked_sketch[of fuel n e] have t: "currentState ?t = last (STATE_INIT # state_changes (trace ?t))"
    "set (state_changes (trace ?t)) \<subseteq> {STATE_HOMING, STATE_READY, STATE_EXTENDING, STATE_STOPPED}"
    "set (pulse_states STATE_INIT (trace ?t)) \<subseteq> {STATE_HOMING, STATE_EXTENDING}"
    by (simp_all add: tracked_def)
  have "last (STATE_INIT # state_changes (trace ?t)) \<in>
      {STATE_INIT, STATE_HOMING, STATE_READY, STATE_EXTENDING, STATE_STOPPED}"
    by (rule last_in_set) (use t(2) in auto)
  then have 1: "currentState ?t \<noteq> STATE_RETRACTING"
    unfolding t(1)[symmetric] by auto
  have 2: "STATE_RETRACTING \<notin> set (state_changes (trace ?t))"
    using t(2) by auto
  have 3: "STATE_RETRACTING \<notin> set (pulse_states STATE_INIT (trace ?t))"
    using t(3) by auto
  have 5: "\<exists>ms. effect s (extendSequence fuel e s) ms (finished (extendSequence fuel e s))"
    using extendSequence_eff[of s fuel e] by blast
  have 6: "\<exists>ms. effect s (retractSequence e s) ms (finished (retractSequence e s))"
    using retractSequence_eff[of s e] by blast
  have 7: "testMode_command fuel e CHR ''e'' s = extendSequence fuel e s"
    "testMode_command fuel e CHR ''r'' s = retractSequence e s"
    by (simp_all add: testMode_command_def)
  show ?thesis
    using 1 2 3 testMode_never_retracting[of fuel e] loop_log[of s fuel e] 5 6 7 by blast
qed

lemma extend_command_env_read [simp]: "digitalRead extend_command_env p s = HIGH"
  by (simp add: digitalRead_def extend_command_env_def)

lemma test_extend_run:
  "testMode 1 extend_command_env test_mode_entry = Unfinished test_extended"
proof -
  let ?e = extend_command_env
  let ?s4 = "test_mode_entry\<lparr>rx_taken := 1\<rparr>"
  let ?s1 = "move_state Y_STEP_PIN Y_DIR_PIN DIR_Y_UP 3440 3440 ?s4"
  let ?s1' = "?s1\<lparr>lastMotorActivity := millis ?s1\<rparr>"
  let ?s2 = "move_state X_STEP_PIN X_DIR_PIN DIR_X_OUT 6480 6480 ?s1'"
  let ?s2' = "?s2\<lparr>lastMotorActivity := millis ?s2\<rparr>"
  have es: "\<And>s'. digitalRead ?e E_STOP_PIN s' = HIGH"
    by simp
  have a: "Serial_available ?e test_mode_entry = 1"
    by (simp add: Serial_available_def extend_command_env_def)
  have r: "Serial_read ?e test_mode_entry = (CHR ''e'', ?s4)"
    by (simp add: Serial_read_def extend_command_env_def)
  have f: "Serial_flush ?e ?s4 = ?s4"
    by (simp add: Serial_flush_def extend_command_env_def)
  have m1: "moveAxis ?e Y_STEP_PIN Y_DIR_PIN DIR_Y_UP 3440 ?s4 = Return () ?s1'"
    using moveAxis_completes[OF es, of 3440 Y_STEP_PIN Y_DIR_PIN DIR_Y_UP ?s4] by simp
  have m2: "moveAxis ?e X_STEP_PIN X_DIR_PIN DIR_X_OUT 6480 ?s1' = Return () ?s2'"
    using moveAxis_completes[OF es, of 6480 X_STEP_PIN X_DIR_PIN DIR_X_OUT ?s1'] by simp
  have w: "waitForButtonPress (Suc 0) ?e s = Unfinished (delay 10 (delay 100 s))" for s
    by (simp add: waitForButtonPress_def andThen_def checkEStop_simps)
  have x: "extendSequence (Suc 0) ?e ?s4 = Unfinished test_extended"
    unfolding extendSequence_def travel_steps m1 andThen_def
    by (simp add: m2 w test_extended_def Let_def del: One_nat_def)
  have c: "testMode_command (Suc 0) ?e CHR ''e'' ?s4 = Unfinished test_extended"
    by (simp add: testMode_command_def x del: One_nat_def)
  have l: "testMode_loop (Suc 0) (Suc 0) ?e test_mode_entry = Unfinished test_extended"
    by (subst testMode_loop.simps(2))
       (simp add: checkEStop_simps andThen_def checkMotorIdle_def a r f c del: One_nat_def)
  show ?thesis
    unfolding testMode_def using l by simp
qed

lemma test_extended_trace:
  "trace test_extended =
     [Write Y_ENABLE_PIN HIGH, Write X_ENABLE_PIN HIGH, Wait 100000, SetState STATE_TEST_MODE]
     @ [Write Y_ENABLE_PIN LOW, Write X_ENABLE_PIN LOW, Wait 10000, Write Y_DIR_PIN LOW, Wait 50000]
     @ pulse_train Y_STEP_PIN (moveAxis_delay 3440) 0 3440
     @ [Write Y_ENABLE_PIN LOW, Write X_ENABLE_PIN LOW, Wait 10000, Write X_DIR_PIN LOW, Wait 50000]
     @ pulse_train X_STEP_PIN (moveAxis_delay 6480) 0 6480
     @ [Wait 100000, Wait 10000]"
  by (simp add: test_extended_def Let_def DIR_Y_UP_def DIR_X_OUT_def)

text \<open>
  Claim C10 as stated fails in test mode: command \<open>e\<close>, sent right after start-up in a build
  with \<open>TEST_MODE\<close> set, runs the extension with \<open>currentState\<close> at \<open>STATE_TEST_MODE\<close>. All 3440
  Y pulses and all 6480 X pulses are issued in that state, \<open>STATE_EXTENDING\<close> is never assigned,
  and the sketch is then waiting for the button, still in \<open>STATE_TEST_MODE\<close>.
\<close>

theorem test_mode_cycle_not_extending:
  "testMode 1 extend_command_env test_mode_entry = Unfinished test_extended \<and>
   state_changes (trace test_extended) = [STATE_TEST_MODE] \<and>
   moves (LOW, LOW) (trace test_extended) = replicate 3440 (Y_STEP_PIN, LOW) @ replicate 6480 (X_STEP_PIN, LOW) \<and>
   pulse_states STATE_INIT (trace test_extended) =
     replicate 3440 STATE_TEST_MODE @ replicate 6480 STATE_TEST_MODE \<and>
   STATE_EXTENDING \<notin> set (state_changes (trace test_extended)) \<and>
   STATE_EXTENDING \<notin> set (pulse_states STATE_INIT (trace test_extended)) \<and>
   currentState test_extended = STATE_TEST_MODE"
proof -
  have c: "currentState test_extended = STATE_TEST_MODE"
    by (simp add: test_extended_def Let_def move_state_def test_mode_entry_def)
  show ?thesis
    unfolding test_extended_trace using test_extend_run c by simp
qed

section \<open>Motor power\<close>

subsection \<open>Setup and the main loop\<close>

lemma power_after_append [simp]: "power_after pw (a @ b) = power_after (power_after pw a) b"
  by (induction a arbitrary: pw) simp_all

lemma pulse_power_append [simp]:
  "pulse_power pw (a @ b) = pulse_power pw a @ pulse_power (power_after pw a) b"
  by (induction a arbitrary: pw) simp_all

lemma power_pulse_train [simp]:
  assumes "p = X_STEP_PIN \<or> p = Y_STEP_PIN"
  shows "power_after Awake (pulse_train p f k j) = Awake"
    and "pulse_power Awake (pulse_train p f k j) = replicate j Awake"
  using assms by (induction j arbitrary: k; auto simp: pin_defs)+

lemma power_stop_tail [simp]: "pulse_power pw (stop_tail r) = []"
  by (cases r) (simp_all add: pin_defs)

lemma moves_Nil_no_pulse: "moves d es = [] \<Longrightarrow> pulse_power pw es = []"
proof (induction es arbitrary: d pw)
  case Nil
  show ?case by simp
next
  case (Cons ev es)
  from Cons.prems have 1: "move_of d ev = []" and 2: "moves (dir_step d ev) es = []"
    by simp_all
  from 1 have "\<not> is_pulse ev"
    by (cases ev; cases d) (auto split: if_splits)
  with Cons.IH[OF 2] show ?case
    by simp
qed

lemma keeps_powerI:
  "trace (state_of r) = trace s @ new \<Longrightarrow> set (pulse_power pw new) \<subseteq> {Awake} \<Longrightarrow>
   (\<And>a s'. r = Return a s' \<Longrightarrow> power_after pw new = Awake) \<Longrightarrow> keeps_power pw s r"
  unfolding keeps_power_def by blast

lemma keeps_power_andThen:
  assumes "keeps_power pw s r" "\<And>a s1. r = Return a s1 \<Longrightarrow> keeps_power Awake s1 (k a s1)"
  shows "keeps_power pw s (andThen r k)"
proof (cases r)
  case (Return a s1)
  from assms(1) Return obtain n1 where 1: "trace s1 = trace s @ n1" "set (pulse_power pw n1) \<subseteq> {Awake}"
    "power_after pw n1 = Awake"
    unfolding keeps_power_def by auto
  from assms(2)[OF Return] obtain n2 where 2: "trace (state_of (k a s1)) = trace s1 @ n2"
    "set (pulse_power Awake n2) \<subseteq> {Awake}" "\<And>b s'. k a s1 = Return b s' \<Longrightarrow> power_after Awake n2 = Awake"
    unfolding keeps_power_def by auto
  show ?thesis
    by (rule keeps_powerI[of _ _ "n1 @ n2"]) (use 1 2 Return in \<open>auto simp: andThen_def\<close>)
next
  case (Halt s1)
  with assms(1) show ?thesis by (simp add: andThen_def keeps_power_def)
next
  case (Unfinished s1)
  with assms(1) show ?thesis by (simp add: andThen_def keeps_power_def)
qed

lemma keeps_power_after:
  assumes "keeps_power (power_after pw pre) s1 r" "trace s1 = trace s @ pre" "pulse_power pw pre = []"
  shows "keeps_power pw s r"
proof -
  from assms(1) obtain n where n: "trace (state_of r) = trace s1 @ n"
    "set (pulse_power (power_after pw pre) n) \<subseteq> {Awake}"
    "\<And>a s'. r = Return a s' \<Longrightarrow> power_after (power_after pw pre) n = Awake"
    unfolding keeps_power_def by auto
  show ?thesis
    by (rule keeps_powerI[of _ _ "pre @ n"]) (use n assms(2,3) in auto)
qed

lemma keeps_power_Return: "keeps_power Awake s (Return a s)"
  by (rule keeps_powerI[of _ _ "[]"]) simp_all

lemma keeps_power_Unfinished: "keeps_power pw s (Unfinished s)"
  by (rule keeps_powerI[of _ _ "[]"]) simp_all

lemma keeps_power_emergencyStop: "keeps_power pw s (emergencyStop s)"
  by (rule keeps_powerI[of _ _ "[Write Y_ENABLE_PIN HIGH, Write X_ENABLE_PIN HIGH, SetState STATE_STOPPED]"])
     (simp_all add: emergencyStop_def pin_defs)

lemma is_axis_pins:
  assumes "is_axis stepPin dirPin"
  shows "stepPin = X_STEP_PIN \<or> stepPin = Y_STEP_PIN"
    and "dirPin \<noteq> X_ENABLE_PIN" "dirPin \<noteq> Y_ENABLE_PIN" "dirPin \<noteq> X_STEP_PIN" "dirPin \<noteq> Y_STEP_PIN"
  using assms by (auto simp: is_axis_def pin_defs)

lemma stop_tail_Return: "r = Return a s' \<Longrightarrow> stop_tail r = []"
  by simp

lemma keeps_power_shape:
  assumes "trace (state_of r) = trace s @ pre @ pulse_train p f k j @ stop_tail r"
    "pulse_power pw pre = []" "power_after pw pre = Awake" "p = X_STEP_PIN \<or> p = Y_STEP_PIN"
  shows "keeps_power pw s r"
  by (rule keeps_powerI[OF assms(1)]) (auto simp: assms(2-4))

lemma moveAxis_power:
  assumes "is_axis stepPin dirPin"
  shows "keeps_power pw s (moveAxis e stepPin dirPin direction steps s)"
proof -
  let ?r = "moveAxis e stepPin dirPin direction steps s"
  let ?pre = "[Write Y_ENABLE_PIN LOW, Write X_ENABLE_PIN LOW, Wait 10000, Write dirPin direction, Wait 50000]"
  note ax = is_axis_pins[OF assms]
  from moveAxis_shape[of steps e stepPin dirPin direction s]
  obtain j where j: "trace (state_of ?r) =
       trace s @ ?pre @ pulse_train stepPin (moveAxis_delay steps) 0 j @ stop_tail ?r"
    by blast
  have p: "pulse_power pw ?pre = []" "power_after pw ?pre = Awake"
    using ax(2-5) by simp_all
  show ?thesis
    by (rule keeps_power_shape[OF j p ax(1)])
qed

lemma moveAxisToLimit_power:
  assumes "is_axis stepPin dirPin"
  shows "keeps_power pw s (moveAxisToLimit e stepPin dirPin limitPin direction a s)"
proof -
  let ?r = "moveAxisToLimit e stepPin dirPin limitPin direction a s"
  let ?pre = "[Write Y_ENABLE_PIN LOW, Write X_ENABLE_PIN LOW, Wait 10000, Write dirPin direction, Wait 50000]"
  note ax = is_axis_pins[OF assms]
  from moveAxisToLimit_shape[of a e stepPin dirPin limitPin direction s]
  obtain j where j: "trace (state_of ?r) =
       trace s @ ?pre @ pulse_train stepPin moveAxisToLimit_delay 0 j @ stop_tail ?r"
    by blast
  have p: "pulse_power pw ?pre = []" "power_after pw ?pre = Awake"
    using ax(2-5) by simp_all
  show ?thesis
    by (rule keeps_power_shape[OF j p ax(1)])
qed

lemma homeAxis_power:
  assumes "is_axis stepPin dirPin"
  shows "keeps_power Awake s (homeAxis fuel e stepPin dirPin limitPin direction a s)"
proof -
  let ?r = "homeAxis fuel e stepPin dirPin limitPin direction a s"
  note ax = is_axis_pins[OF assms]
  from homeAxis_shape[of dirPin direction fuel e stepPin limitPin a s]
  obtain j hd where j: "hd = [] \<and> j = 0 \<or> hd = [Write dirPin direction, Wait 50000]"
    "trace (state_of ?r) = trace s @ hd @ pulse_train stepPin homeAxis_delay 0 j @ stop_tail ?r"
    by blast
  have p: "pulse_power Awake hd = []" "power_after Awake hd = Awake"
    using ax(2-5) j(1) by auto
  show ?thesis
    by (rule keeps_power_shape[OF j(2) p ax(1)])
qed

lemma waitRelease_power: "keeps_power Awake s (waitRelease n e s)"
proof (induction n arbitrary: s)
  case 0
  show ?case by (simp add: keeps_power_Unfinished)
next
  case (Suc n)
  show ?case
  proof (cases "digitalRead e COOL_EN_PIN s = LOW")
    case True
    have "keeps_power Awake s (waitRelease n e (delay 10 s))"
      by (rule keeps_power_after[where pre = "[Wait 10000]" and ?s1.0 = "delay 10 s"]) (simp_all add: Suc)
    with True show ?thesis by simp
  next
    case False
    then show ?thesis by (simp add: keeps_power_Return)
  qed
qed

lemma waitPress_loop_power: "keeps_power Awake s (waitPress_loop fuel n e s)"
proof (induction n arbitrary: s)
  case 0
  show ?case by (simp add: keeps_power_Unfinished)
next
  case (Suc n)
  show ?case
  proof (cases "digitalRead e E_STOP_PIN s = LOW")
    case True
    then have "waitPress_loop fuel (Suc n) e s = emergencyStop s"
      by (simp add: checkEStop_simps andThen_def emergencyStop_def)
    then show ?thesis
      by (simp add: keeps_power_emergencyStop)
  next
    case False
    then have ce: "checkEStop e s = Return False s"
      by (simp add: checkEStop_simps)
    show ?thesis
    proof (cases "digitalRead e COOL_EN_PIN s = LOW")
      case low: True
      show ?thesis
      proof (cases "digitalRead e COOL_EN_PIN (delay 50 s) = LOW")
        case True
        then have w: "waitPress_loop fuel (Suc n) e s = waitRelease fuel e (delay 50 s)"
          using ce low by (simp add: andThen_def Let_def)
        show ?thesis
          unfolding w
          by (rule keeps_power_after[where pre = "[Wait 50000]" and ?s1.0 = "delay 50 s"])
             (simp_all add: waitRelease_power)
      next
        case False
        then have w: "waitPress_loop fuel (Suc n) e s = waitPress_loop fuel n e (delay 10 (delay 50 s))"
          using ce low by (simp add: andThen_def Let_def)
        show ?thesis
          unfolding w
          by (rule keeps_power_after[where pre = "[Wait 50000, Wait 10000]" and ?s1.0 = "delay 10 (delay 50 s)"])
             (simp_all add: Suc)
      qed
    next
      case False
      then have w: "waitPress_loop fuel (Suc n) e s = waitPress_loop fuel n e (delay 10 s)"
        using ce by (simp add: andThen_def)
      show ?thesis
        unfolding w
        by (rule keeps_power_after[where pre = "[Wait 10000]" and ?s1.0 = "delay 10 s"]) (simp_all add: Suc)
    qed
  qed
qed

lemma waitForButtonPress_power: "keeps_power Awake s (waitForButtonPress fuel e s)"
  unfolding waitForButtonPress_def
proof (rule keeps_power_andThen[OF waitRelease_power])
  fix a s1
  show "keeps_power Awake s1 (waitPress_loop fuel fuel e (delay 100 s1))"
    by (rule keeps_power_after[where pre = "[Wait 100000]" and ?s1.0 = "delay 100 s1"])
       (simp_all add: waitPress_loop_power)
qed

lemma keeps_power_finish:
  assumes "trace (f s2) = trace s2 @ [SetState STATE_READY]"
  shows "keeps_power Awake s2 (if \<not> ok then emergencyStop s2 else Return () (f s2))"
proof (cases ok)
  case True
  have "keeps_power Awake s2 (Return () (f s2))"
    by (rule keeps_powerI[of _ _ "[SetState STATE_READY]"]) (simp_all add: assms)
  with True show ?thesis by simp
next
  case False
  then show ?thesis by (simp add: keeps_power_emergencyStop)
qed

lemma retractSequence_power: "keeps_power pw s (retractSequence e s)"
  unfolding retractSequence_def
proof (rule keeps_power_andThen[OF moveAxisToLimit_power[OF is_axis_X]])
  fix ok s1
  show "keeps_power Awake s1
          (if \<not> ok then emergencyStop s1
           else andThen (moveAxisToLimit e Y_STEP_PIN Y_DIR_PIN Y_LIMIT_PIN DIR_Y_DOWN CHR ''Y'' s1)
                  (\<lambda>ok s2. if \<not> ok then emergencyStop s2 else Return () (setState STATE_READY s2)))"
  proof (cases ok)
    case False
    then show ?thesis by (simp add: keeps_power_emergencyStop)
  next
    case True
    have "keeps_power Awake s1
           (andThen (moveAxisToLimit e Y_STEP_PIN Y_DIR_PIN Y_LIMIT_PIN DIR_Y_DOWN CHR ''Y'' s1)
                  (\<lambda>ok s2. if \<not> ok then emergencyStop s2 else Return () (setState STATE_READY s2)))"
      by (rule keeps_power_andThen[OF moveAxisToLimit_power[OF is_axis_Y]])
         (rule keeps_power_finish, simp)
    with True show ?thesis by simp
  qed
qed

lemma performHoming_power: "keeps_power pw s (performHoming fuel e s)"
  unfolding performHoming_def
proof (rule keeps_power_after[where pre = "[Write Y_ENABLE_PIN LOW, Write X_ENABLE_PIN LOW, Wait 10000]"
      and ?s1.0 = "enableMotors s"])
  show "trace (enableMotors s) = trace s @ [Write Y_ENABLE_PIN LOW, Write X_ENABLE_PIN LOW, Wait 10000]"
    by simp
  show "pulse_power pw [Write Y_ENABLE_PIN LOW, Write X_ENABLE_PIN LOW, Wait 10000] = []"
    by simp
  have pa: "power_after pw [Write Y_ENABLE_PIN LOW, Write X_ENABLE_PIN LOW, Wait 10000] = Awake"
    by simp
  show "keeps_power (power_after pw [Write Y_ENABLE_PIN LOW, Write X_ENABLE_PIN LOW, Wait 10000]) (enableMotors s)
     (andThen (homeAxis fuel e X_STEP_PIN X_DIR_PIN X_LIMIT_PIN DIR_X_IN CHR ''X'' (enableMotors s))
       (\<lambda>ok s1. if \<not> ok then emergencyStop s1
          else andThen (homeAxis fuel e Y_STEP_PIN Y_DIR_PIN Y_LIMIT_PIN DIR_Y_DOWN CHR ''Y'' s1)
                 (\<lambda>ok s2. if \<not> ok then emergencyStop s2
                    else Return () (setState STATE_READY (s2\<lparr>isHomed := True\<rparr>)))))"
    unfolding pa
  proof (rule keeps_power_andThen[OF homeAxis_power[OF is_axis_X]])
    fix ok s1
    show "keeps_power Awake s1
          (if \<not> ok then emergencyStop s1
           else andThen (homeAxis fuel e Y_STEP_PIN Y_DIR_PIN Y_LIMIT_PIN DIR_Y_DOWN CHR ''Y'' s1)
                 (\<lambda>ok s2. if \<not> ok then emergencyStop s2
                    else Return () (setState STATE_READY (s2\<lparr>isHomed := True\<rparr>))))"
    proof (cases ok)
      case False
      then show ?thesis by (simp add: keeps_power_emergencyStop)
    next
      case True
      have "keeps_power Awake s1
           (andThen (homeAxis fuel e Y_STEP_PIN Y_DIR_PIN Y_LIMIT_PIN DIR_Y_DOWN CHR ''Y'' s1)
                 (\<lambda>ok s2. if \<not> ok then emergencyStop s2
                    else Return () (setState STATE_READY (s2\<lparr>isHomed := True\<rparr>))))"
        by (rule keeps_power_andThen[OF homeAxis_power[OF is_axis_Y]])
           (rule keeps_power_finish, simp add: setState_def)
      with True show ?thesis by simp
    qed
  qed
qed

lemma extendSequence_power: "keeps_power pw s (extendSequence fuel e s)"
  unfolding extendSequence_def
  by (rule keeps_power_andThen[OF moveAxis_power[OF is_axis_Y]],
      rule keeps_power_andThen[OF moveAxis_power[OF is_axis_X]],
      rule keeps_power_andThen[OF waitForButtonPress_power],
      rule retractSequence_power)

lemma steps_poweredI:
  "trace (state_of r) = trace s @ new \<Longrightarrow> (\<And>pw. set (pulse_power pw new) \<subseteq> {Awake}) \<Longrightarrow> steps_powered s r"
  unfolding steps_powered_def by blast

lemma keeps_power_steps_powered:
  assumes "\<And>pw. keeps_power pw s r"
  shows "steps_powered s r"
proof -
  from assms[of Off] obtain new where new: "trace (state_of r) = trace s @ new"
    unfolding keeps_power_def by blast
  have "set (pulse_power pw new) \<subseteq> {Awake}" for pw
  proof -
    from assms[of pw] obtain n where n: "trace (state_of r) = trace s @ n" "set (pulse_power pw n) \<subseteq> {Awake}"
      unfolding keeps_power_def by blast
    from n(1) new have "n = new" by simp
    with n(2) show ?thesis by simp
  qed
  with new show ?thesis
    by (rule steps_poweredI)
qed

lemma steps_powered_after:
  assumes "steps_powered s1 r" "trace s1 = trace s @ pre" "\<And>pw. pulse_power pw pre = []"
  shows "steps_powered s r"
proof -
  from assms(1) obtain n where n: "trace (state_of r) = trace s1 @ n" "\<And>pw. set (pulse_power pw n) \<subseteq> {Awake}"
    unfolding steps_powered_def by blast
  show ?thesis
    by (rule steps_poweredI[of _ _ "pre @ n"]) (simp_all add: n assms(2,3))
qed

lemma steps_powered_andThen:
  assumes "steps_powered s r" "\<And>a s1. r = Return a s1 \<Longrightarrow> steps_powered s1 (k a s1)"
  shows "steps_powered s (andThen r k)"
proof (cases r)
  case (Return a s1)
  from assms(1) Return obtain n1 where 1: "trace s1 = trace s @ n1" "\<And>pw. set (pulse_power pw n1) \<subseteq> {Awake}"
    unfolding steps_powered_def by auto
  from assms(2)[OF Return] obtain n2 where 2: "trace (state_of (k a s1)) = trace s1 @ n2"
    "\<And>pw. set (pulse_power pw n2) \<subseteq> {Awake}"
    unfolding steps_powered_def by auto
  show ?thesis
    by (rule steps_poweredI[of _ _ "n1 @ n2"]) (simp_all add: 1 2 Return andThen_def)
next
  case (Halt s1)
  with assms(1) show ?thesis by (simp add: andThen_def steps_powered_def)
next
  case (Unfinished s1)
  with assms(1) show ?thesis by (simp add: andThen_def steps_powered_def)
qed

lemma steps_powered_here [simp]: "steps_powered s (Return a s)" "steps_powered s (Unfinished s)"
  by (rule steps_poweredI[of _ _ "[]"]; simp)+

lemma steps_powered_emergencyStop [simp]: "steps_powered s (emergencyStop s)"
  by (rule keeps_power_steps_powered) (rule keeps_power_emergencyStop)

lemma waitRelease_steps_powered: "steps_powered s (waitRelease n e s)"
proof -
  from waitRelease_eff[of s n e] obtain new where
    new: "trace (state_of (waitRelease n e s)) = trace s @ new" "\<And>d. moves d new = []"
    unfolding effect_def by blast
  show ?thesis
    by (rule steps_poweredI[OF new(1)]) (simp add: moves_Nil_no_pulse[OF new(2)])
qed

lemma checkMotorIdle_no_pulse:
  "\<exists>pre. trace (checkMotorIdle s) = trace s @ pre \<and> (\<forall>pw. pulse_power pw pre = [])"
  by (simp add: checkMotorIdle_def disableMotors_def pin_defs)

lemma loop_steps_powered: "steps_powered s (loop fuel e s)"
proof (cases "digitalRead e E_STOP_PIN s = LOW")
  case True
  then show ?thesis
    by (simp add: loop_def)
next
  case False
  let ?s1 = "checkMotorIdle s"
  let ?seq = "\<lambda>(u::unit) s3. if \<not> isHomed s3 then performHoming fuel e (setState STATE_HOMING s3)
                       else extendSequence fuel e (setState STATE_EXTENDING s3)"
  let ?body = "case currentState ?s1 of
             STATE_READY \<Rightarrow>
               (if digitalRead e COOL_EN_PIN ?s1 = LOW then
                  (let s2 = delay 50 ?s1 in
                   if digitalRead e COOL_EN_PIN s2 = LOW then andThen (waitRelease fuel e s2) ?seq
                   else Return () s2)
                else Return () ?s1)
           | STATE_EXTENDING \<Rightarrow> Return () (setState STATE_READY ?s1)
           | _ \<Rightarrow> Return () ?s1"
  have l: "loop fuel e s = andThen ?body (\<lambda>u s4. Return () (delay 10 s4))"
    using False by (simp add: loop_def Let_def)
  from checkMotorIdle_no_pulse[of s] obtain pre where
    pre: "trace ?s1 = trace s @ pre" "\<And>pw. pulse_power pw pre = []"
    by blast
  have seq: "steps_powered s3 (?seq u s3)" for u s3
  proof (cases "isHomed s3")
    case True
    have "steps_powered s3 (extendSequence fuel e (setState STATE_EXTENDING s3))"
      by (rule steps_powered_after[where pre = "[SetState STATE_EXTENDING]" and ?s1.0 = "setState STATE_EXTENDING s3"])
         (simp_all add: keeps_power_steps_powered extendSequence_power)
    with True show ?thesis by simp
  next
    case False
    have "steps_powered s3 (performHoming fuel e (setState STATE_HOMING s3))"
      by (rule steps_powered_after[where pre = "[SetState STATE_HOMING]" and ?s1.0 = "setState STATE_HOMING s3"])
         (simp_all add: keeps_power_steps_powered performHoming_power)
    with False show ?thesis by simp
  qed
  have wait: "steps_powered ?s1 (andThen (waitRelease fuel e (delay 50 ?s1)) ?seq)"
    by (rule steps_powered_after[where pre = "[Wait 50000]" and ?s1.0 = "delay 50 ?s1"])
       (simp_all add: steps_powered_andThen[OF waitRelease_steps_powered] seq)
  have later: "steps_powered ?s1 (Return () (delay 50 ?s1))"
    by (rule steps_poweredI[of _ _ "[Wait 50000]"]) simp_all
  have ready: "steps_powered ?s1 (Return () (setState STATE_READY ?s1))"
    by (rule steps_poweredI[of _ _ "[SetState STATE_READY]"]) simp_all
  have "steps_powered ?s1 ?body"
    using wait later ready by (simp add: Let_def split: SystemState.split)
  then have body: "steps_powered s ?body"
    by (rule steps_powered_after[OF _ pre])
  have tick: "steps_powered s4 (Return () (delay 10 s4))" for s4
    by (rule steps_poweredI[of _ _ "[Wait 10000]"]) simp_all
  show ?thesis
    unfolding l by (rule steps_powered_andThen[OF body tick])
qed

lemma loops_steps_powered: "steps_powered s (loops fuel n e s)"
proof (induction n arbitrary: s)
  case 0
  show ?case by simp
next
  case (Suc n)
  show ?case
    unfolding loops.simps by (rule steps_powered_andThen[OF loop_steps_powered Suc])
qed

lemma sketch_steps_powered: "steps_powered power_on (sketch fuel n e)"
  unfolding sketch_def
proof (rule steps_powered_andThen[OF _ loops_steps_powered])
  show "steps_powered power_on (setup_fn fuel e power_on)"
    unfolding setup_fn_power_on
    by (rule steps_powered_after[where pre = "[Write Y_ENABLE_PIN HIGH, Write X_ENABLE_PIN HIGH, Wait 100000,
          SetState STATE_HOMING]"
          and ?s1.0 = "setState STATE_HOMING
       (delay 100 ((digitalWrite X_ENABLE_PIN HIGH (digitalWrite Y_ENABLE_PIN HIGH power_on))\<lparr>motorsEnabled := False\<rparr>))"])
       (simp_all add: keeps_power_steps_powered performHoming_power pin_defs)
qed

text \<open>
  In the sketch as it is built (\<open>TEST_MODE\<close> false), every step pulse of every run is issued
  with the drivers enabled and the settling delay of \<open>enableMotors\<close> behind them.
\<close>

theorem sketch_steps_are_powered:
  "set (pulse_power pw (trace (state_of (sketch fuel n e)))) \<subseteq> {Awake}"
  using sketch_steps_powered[of fuel n e] unfolding steps_powered_def by auto

subsection \<open>Test mode\<close>

lemma measure_env_read [simp]:
  "digitalRead measure_env p s = (if p = X_LIMIT_PIN \<and> 163000 \<le> clock s then LOW else HIGH)"
  by (simp add: digitalRead_def measure_env_def)

lemma measure_loop_two:
  assumes "clock s = 160000"
  shows "measure_loop measure_env X_STEP_PIN X_LIMIT_PIN 0 s =
           stepPulse X_STEP_PIN TEST_SPEED_DELAY (stepPulse X_STEP_PIN TEST_SPEED_DELAY s)"
  apply (subst measure_loop.simps, simp add: assms)
  apply (subst measure_loop.simps, simp add: assms TEST_SPEED_DELAY_def)
  apply (subst measure_loop.simps, simp add: assms TEST_SPEED_DELAY_def)
  done

lemma measure_command:
  assumes "clock s = 100000" "rx_taken s = 1"
  shows "testMode_command 2 measure_env CHR ''m'' s =
     Return () (stepPulse X_STEP_PIN TEST_SPEED_DELAY (stepPulse X_STEP_PIN TEST_SPEED_DELAY
       (delay 50 (digitalWrite X_DIR_PIN DIR_X_IN ((delay 10 s)\<lparr>rx_taken := 2\<rparr>)))))"
proof -
  have w: "waitSerial 2 measure_env s = Return () (delay 10 s)"
    using assms
    by (simp add: numeral_2_eq_2 Serial_available_def measure_env_def delay_def delayMicroseconds_def)
  have r: "Serial_read measure_env (delay 10 s) = (CHR ''x'', (delay 10 s)\<lparr>rx_taken := 2\<rparr>)"
    using assms by (simp add: Serial_read_def measure_env_def delay_def delayMicroseconds_def)
  have f: "Serial_flush measure_env ((delay 10 s)\<lparr>rx_taken := 2\<rparr>) = (delay 10 s)\<lparr>rx_taken := 2\<rparr>"
    using assms by (simp add: Serial_flush_def measure_env_def delay_def delayMicroseconds_def)
  have m: "measure_loop measure_env X_STEP_PIN X_LIMIT_PIN 0
             (delay 50 (digitalWrite X_DIR_PIN DIR_X_IN ((delay 10 s)\<lparr>rx_taken := 2\<rparr>))) =
           stepPulse X_STEP_PIN TEST_SPEED_DELAY (stepPulse X_STEP_PIN TEST_SPEED_DELAY
             (delay 50 (digitalWrite X_DIR_PIN DIR_X_IN ((delay 10 s)\<lparr>rx_taken := 2\<rparr>))))"
    by (rule measure_loop_two) (simp add: assms delay_def delayMicroseconds_def digitalWrite_def)
  show ?thesis
    by (simp add: testMode_command_def w andThen_def r f m)
qed

lemma measured_fields [simp]:
  "clock measured = 163100" "rx_taken measured = 2" "motorsEnabled measured = False"
  "trace measured =
     [Write Y_ENABLE_PIN HIGH, Write X_ENABLE_PIN HIGH, Wait 100000, SetState STATE_TEST_MODE,
      Wait 10000, Write X_DIR_PIN HIGH, Wait 50000,
      Write X_STEP_PIN HIGH, Wait 50, Write X_STEP_PIN LOW, Wait 1500,
      Write X_STEP_PIN HIGH, Wait 50, Write X_STEP_PIN LOW, Wait 1500]"
  by (simp_all add: measured_def stepPulse_def delay_def delayMicroseconds_def digitalWrite_def
      TEST_SPEED_DELAY_def DIR_X_IN_def)

lemma measured_pins [simp]:
  "pin_out measured X_ENABLE_PIN = HIGH" "pin_out measured Y_ENABLE_PIN = HIGH"
  by (simp_all add: measured_def test_mode_entry_def power_on_def stepPulse_def delay_def
      delayMicroseconds_def digitalWrite_def setState_def pin_defs)

lemma measure_run:
  "testMode 2 measure_env test_mode_entry = Unfinished (delay 10 (delay 10 measured))"
proof -
  let ?e = measure_env
  let ?s0 = test_mode_entry
  let ?s4 = "?s0\<lparr>rx_taken := 1\<rparr>"
  have a: "Serial_available ?e ?s0 = 1"
    by (simp add: Serial_available_def measure_env_def)
  have r: "Serial_read ?e ?s0 = (CHR ''m'', ?s4)"
    by (simp add: Serial_read_def measure_env_def)
  have f: "Serial_flush ?e ?s4 = ?s4"
    by (simp add: Serial_flush_def measure_env_def)
  have c: "testMode_command 2 ?e CHR ''m'' ?s4 = Return () measured"
    unfolding measured_def by (rule measure_command) simp_all
  have n: "(2::nat) = Suc 1" "(1::nat) = Suc 0"
    by simp_all
  have a2: "Serial_available ?e (delay 10 measured) = 0"
    by (simp add: Serial_available_def measure_env_def delay_def delayMicroseconds_def)
  have i1: "testMode_loop 2 (Suc 1) ?e ?s0 = testMode_loop 2 1 ?e (delay 10 measured)"
    by (subst testMode_loop.simps(2))
       (simp add: checkEStop_simps andThen_def checkMotorIdle_def a r f c del: One_nat_def testMode_loop.simps)
  have m2: "motorsEnabled (delay 10 measured) = False"
    by (simp add: delay_def delayMicroseconds_def)
  have e2: "checkEStop ?e (delay 10 measured) = Return False (delay 10 measured)"
    by (simp add: checkEStop_simps pin_defs)
  have i2: "testMode_loop 2 (Suc 0) ?e (delay 10 measured) = Unfinished (delay 10 (delay 10 measured))"
    by (subst testMode_loop.simps(2)) (simp add: e2 andThen_def checkMotorIdle_def a2 m2)
  show ?thesis
    unfolding testMode_def using i1 i2 by (simp only: n(1)[symmetric] n(2)[symmetric])
qed

lemma jog_run:
  "trace (state_of (testMode_command fuel e CHR ''2'' s)) =
     trace s @ [Write X_DIR_PIN HIGH, Wait 50000, Write Y_ENABLE_PIN LOW, Write X_ENABLE_PIN LOW, Wait 10000]
       @ pulse_train X_STEP_PIN (doSteps_delay 800 TEST_SPEED_DELAY) 0 800"
  by (simp add: testMode_command_def doSteps_run STEPS_PER_MM_def delay_def delayMicroseconds_def
      digitalWrite_def DIR_X_IN_def)

text \<open>
  Claim C8 fails in test mode: the measuring loop of command \<open>m\<close> steps without calling
  \<open>enableMotors\<close>. In a build with \<open>TEST_MODE\<close> set, the commands \<open>m\<close>, \<open>x\<close> sent right
  after start-up, with the X limit switch open until the second step, make \<open>testMode\<close> issue two
  step pulses on the X axis while both enable outputs are still high, as \<open>setup\<close> left them, and
  \<open>motorsEnabled\<close> is false; no write to an enable pin and no settling delay precedes the pulses.
  (\<open>testMode\<close> is then still in its command loop, which is where the bound on that loop ends the
  run.) The jog command \<open>2\<close>, the same move by \<open>doSteps\<close>, issued in the same state enables the
  drivers first: all its 800 pulses find them awake.
\<close>

theorem measure_steps_with_drivers_disabled:
  "testMode 2 measure_env test_mode_entry = Unfinished (delay 10 (delay 10 measured)) \<and>
   trace (state_of (testMode 2 measure_env test_mode_entry)) =
     [Write Y_ENABLE_PIN HIGH, Write X_ENABLE_PIN HIGH, Wait 100000, SetState STATE_TEST_MODE,
      Wait 10000, Write X_DIR_PIN HIGH, Wait 50000,
      Write X_STEP_PIN HIGH, Wait 50, Write X_STEP_PIN LOW, Wait 1500,
      Write X_STEP_PIN HIGH, Wait 50, Write X_STEP_PIN LOW, Wait 1500,
      Wait 10000, Wait 10000] \<and>
   pulse_power Off (trace (state_of (testMode 2 measure_env test_mode_entry))) = [Off, Off] \<and>
   \<not> motorsEnabled (state_of (testMode 2 measure_env test_mode_entry)) \<and>
   pin_out (state_of (testMode 2 measure_env test_mode_entry)) X_ENABLE_PIN = HIGH \<and>
   pin_out (state_of (testMode 2 measure_env test_mode_entry)) Y_ENABLE_PIN = HIGH \<and>
   pulse_power Off (trace (state_of (testMode_command fuel e CHR ''2'' test_mode_entry))) = replicate 800 Awake"
proof -
  have p: "pulse_power Off
     [Write Y_ENABLE_PIN HIGH, Write X_ENABLE_PIN HIGH, Wait 100000, SetState STATE_TEST_MODE,
      Wait 10000, Write X_DIR_PIN HIGH, Wait 50000,
      Write X_STEP_PIN HIGH, Wait 50, Write X_STEP_PIN LOW, Wait 1500,
      Write X_STEP_PIN HIGH, Wait 50, Write X_STEP_PIN LOW, Wait 1500,
      Wait 10000, Wait 10000] = [Off, Off]"
    by (simp add: pin_defs)
  have f: "motorsEnabled (delay 10 (delay 10 measured)) = False"
    "pin_out (delay 10 (delay 10 measured)) = pin_out measured"
    by (simp_all add: delay_def delayMicroseconds_def)
  have pre: "pulse_power Off ([Write Y_ENABLE_PIN HIGH, Write X_ENABLE_PIN HIGH, Wait 100000, SetState STATE_TEST_MODE]
      @ [Write X_DIR_PIN HIGH, Wait 50000, Write Y_ENABLE_PIN LOW, Write X_ENABLE_PIN LOW, Wait 10000]) = []"
    "power_after Off ([Write Y_ENABLE_PIN HIGH, Write X_ENABLE_PIN HIGH, Wait 100000, SetState STATE_TEST_MODE]
      @ [Write X_DIR_PIN HIGH, Wait 50000, Write Y_ENABLE_PIN LOW, Write X_ENABLE_PIN LOW, Wait 10000]) = Awake"
    by (simp_all add: pin_defs)
  have j: "pulse_power Off (trace (state_of (testMode_command fuel e CHR ''2'' test_mode_entry))) = replicate 800 Awake"
    unfolding jog_run test_mode_entry_fields append_assoc[symmetric]
    by (subst pulse_power_append) (simp only: pre power_pulse_train(2)[OF disjI1[OF refl]] append_Nil)
  show ?thesis
    unfolding measure_run state_of.simps delay_trace f measured_fields measured_pins using p j by simp
qed

end
